theory Spec2Isabelle
  imports Complex_Main "HOL-Library.AList"
begin

section \<open>Python values and exceptions\<close>

text \<open>
  The exceptions that the modelled code raises itself, or that the Python
  interpreter raises on its behalf (a missing attribute, an index out of range,
  an operation the operand's type does not support). The carried string of
  \<open>Exception\<close> and \<open>ValueError\<close> is the message.
\<close>

datatype error =
    Exception string
  | ValueError string
  | TypeError
  | IndexError
  | AttributeError

text \<open>
  The values a node of the tracer may hold. \<open>PyObj\<close> stands for an instance of
  an algebra class (for example a matrix Taylor polynomial); what its methods do
  is supplied from outside, in the record \<open>algebra\<close> below. \<open>NotSet\<close> is
  the instance of the class of that name which \<open>Function.xbar\<close> holds as a class
  attribute. A float carries a rational: the tracer itself never computes with
  floats, it only stores the literal \<open>0.\<close>.
\<close>

datatype 'a pyval =
    PyNone
  | NotSet
  | PyInt int
  | PyFloat rat
  | PyStr string
  | PyTuple "'a pyval list"
  | PyObj 'a

section \<open>nthderiv: the decorator basecase\<close>

text \<open>
  A keyword argument of a call is \<open>None\<close>, an integer or some other object.
  The dictionary \<open>kwargs\<close> is an association list.
\<close>

datatype 'a kwval = KwNone | KwInt int | KwObj 'a

type_synonym 'a kwargs = "(string \<times> 'a kwval) list"

text \<open>
  A Python callable of this module takes positional arguments and keyword
  arguments; it may raise, and it may write into the world outside (an array
  passed as \<open>out\<close>), which is the state \<open>'st\<close> threaded through the call.
\<close>

type_synonym ('a, 'st) pyfun =
  "'a kwval list \<Rightarrow> 'a kwargs \<Rightarrow> 'st \<Rightarrow> (error + 'a kwval) \<times> 'st"

text \<open>\<open>kwargs.pop(key, default)\<close>: the value and the dictionary without the key.\<close>

definition dict_pop :: "string \<Rightarrow> 'a kwval \<Rightarrow> 'a kwargs \<Rightarrow> 'a kwval \<times> 'a kwargs" where
  "dict_pop key dflt kwargs =
     ((case map_of kwargs key of None \<Rightarrow> dflt | Some v \<Rightarrow> v), AList.delete key kwargs)"

text \<open>
  \<open>n < 0\<close> and the truth value of \<open>n\<close>. On an integer they are what Python
  computes; on anything else the comparison and the truth test belong to the
  object, and are taken as parameters.
\<close>

record 'a objops =
  obj_lt_zero :: "'a kwval \<Rightarrow> error + bool"
  obj_truth :: "'a \<Rightarrow> error + bool"

definition lt_zero :: "'a objops \<Rightarrow> 'a kwval \<Rightarrow> error + bool" where
  "lt_zero ops n = (case n of KwInt i \<Rightarrow> Inr (i < 0) | _ \<Rightarrow> obj_lt_zero ops n)"

definition truth :: "'a objops \<Rightarrow> 'a kwval \<Rightarrow> error + bool" where
  "truth ops n =
     (case n of KwInt i \<Rightarrow> Inr (i \<noteq> 0) | KwNone \<Rightarrow> Inr False | KwObj a \<Rightarrow> obj_truth ops a)"

definition DOM_ALL :: string where "DOM_ALL = ''all real numbers''"
definition DOM_POS :: string where "DOM_POS = ''positive real numbers''"
definition DOM_GT_1 :: string where "DOM_GT_1 = ''real numbers greater than 1''"
definition DOM_GT_NEG_1 :: string where "DOM_GT_NEG_1 = ''real numbers greater than -1''"
definition DOM_ABS_LT_1 :: string where
  "DOM_ABS_LT_1 = ''real numbers with absolute value less than 1''"

definition domain_constants :: "string list" where
  "domain_constants = [DOM_ALL, DOM_POS, DOM_GT_1, DOM_GT_NEG_1, DOM_ABS_LT_1]"

text \<open>
  The function \<open>wrapped_f\<close> that the decorator returns, with the two functions
  it closes over as parameters: \<open>fn_zeroth_deriv\<close>, called when \<open>n\<close> is zero, and
  the decorated \<open>f\<close>, called otherwise. (The message of the first ValueError
  ends with the printed dictionary, which is left out.)
\<close>

definition wrapped_f ::
  "'a objops \<Rightarrow> ('a, 'st) pyfun \<Rightarrow> ('a, 'st) pyfun \<Rightarrow> ('a, 'st) pyfun" where
  "wrapped_f ops fn_zeroth_deriv f args kwargs st =
     (case dict_pop ''out'' KwNone kwargs of (out, kwargs1) \<Rightarrow>
      case dict_pop ''n'' (KwInt 0) kwargs1 of (n, kwargs2) \<Rightarrow>
        if kwargs2 \<noteq> [] then (Inl (ValueError ''unexpected keyword args''), st)
        else case lt_zero ops n of
          Inl e \<Rightarrow> (Inl e, st)
        | Inr True \<Rightarrow> (Inl (ValueError ''n must be a nonnegative integer''), st)
        | Inr False \<Rightarrow>
            (case truth ops n of
               Inl e \<Rightarrow> (Inl e, st)
             | Inr True \<Rightarrow> f args [(''out'', out), (''n'', n)] st
             | Inr False \<Rightarrow>
                 if out = KwNone then fn_zeroth_deriv args [] st
                 else fn_zeroth_deriv args [(''out'', out)] st))"

text \<open>
  The decorated function with the attributes \<open>domain\<close> and \<open>extras\<close> the
  decorator attaches. (\<open>__name__\<close> and \<open>__doc__\<close> are copied from
  \<open>fn_zeroth_deriv\<close>; callables carry no name here.)
\<close>

record ('a, 'st) decorated =
  call :: "('a, 'st) pyfun"
  domain :: string
  extras :: nat

definition basecase ::
  "'a objops \<Rightarrow> ('a, 'st) pyfun \<Rightarrow> string \<Rightarrow> nat \<Rightarrow>
     error + (('a, 'st) pyfun \<Rightarrow> ('a, 'st) decorated)" where
  "basecase ops fn_zeroth_deriv dmn ext =
     (if dmn \<notin> set domain_constants then Inl (ValueError [])
      else Inr (\<lambda>f. \<lparr>call = wrapped_f ops fn_zeroth_deriv f, domain = dmn, extras = ext\<rparr>))"

section \<open>tracer: nodes, graph and store\<close>

text \<open>
  Nodes are Python objects that refer to each other (a leaf even to itself), and
  replay overwrites their fields in place, so the objects live in a store: a
  reference is an index into \<open>heap\<close>. The entry \<open>None\<close> is a \<open>Function\<close>
  object on which \<open>create\<close> has not run (the result of \<open>Function()\<close>): it has
  no attribute but the class attribute \<open>xbar\<close>. A reference beyond the store
  stands for an object of some other class, which has none of the attributes.

  The operation of a node is the classmethod \<open>Id\<close> or a callable of the algebra,
  known by a name of type \<open>'f\<close>. The \<open>ID\<close> of a node is what \<open>get_ID\<close>
  returned when the node was recorded: the count of the graph, or \<open>None\<close>.

  \<open>Function.cgraph\<close> is a class attribute: \<open>None\<close> when the module is loaded
  and, from the first \<open>CGraph()\<close> on, the graph made last. The state holds that
  graph as \<open>cgraph\<close>, with \<open>bound\<close> saying that there is one, and the graphs
  made before it in \<open>earlier\<close>, in the order they were made: user code may
  still hold them and replay them. The methods of \<open>CGraph\<close> below are written
  for the graph \<open>cgraph s\<close> as \<open>self\<close>; a call on an earlier graph puts that
  graph in its place for the call (\<open>on_graph\<close>).
\<close>

type_synonym ref = nat

datatype 'f func = Id | Op 'f

record ('f, 'a) Function =
  f_x :: "'a pyval"
  f_args :: "ref list"
  f_func :: "'f func"
  f_ID :: "nat option"
  f_funcargs :: "'a pyval list"
  f_xbar :: "'a pyval"

record CGraph =
  functionCount :: nat
  functionList :: "ref list"
  dependentFunctionList :: "ref list"
  independentFunctionList :: "ref list"

record ('f, 'a) state =
  heap :: "('f, 'a) Function option list"
  cgraph :: CGraph
  bound :: bool
  earlier :: "CGraph list"

text \<open>
  What the tracer asks of the algebra of the traced values. Every entry is a
  function of the values it is given: the algebra has no access to the nodes.
  \<^item> \<open>forward g args\<close>: the call \<open>func(*args)\<close> of the operation named \<open>g\<close>;
  \<^item> \<open>zeros_like a\<close>: the method call \<open>a.zeros_like()\<close>;
  \<^item> \<open>setitem a v\<close>: the object \<open>a\<close> after \<open>a[...] = v\<close>;
  \<^item> \<open>iter a\<close>: \<open>list(a)\<close>;
  \<^item> \<open>pb v func args out funcargs\<close>: the lookup of \<open>pb_<name of func>\<close> in the
    class of \<open>v\<close> and its call with the positional arguments \<open>args\<close>, the keyword
    \<open>out\<close> and, when \<open>funcargs\<close> is not empty, the keyword \<open>funcargs\<close>. The
    pullback function changes the objects of \<open>out\<close> in place, one after the
    other. The result gives, for each position of \<open>out\<close> in order, how the call
    changes what the object at that position holds, and the exception if the
    lookup or the call raised. An argument that occurs twice is one object at
    two positions, and is changed twice.
\<close>

record ('f, 'a) algebra =
  forward :: "'f \<Rightarrow> 'a pyval list \<Rightarrow> error + 'a pyval"
  zeros_like :: "'a \<Rightarrow> error + 'a pyval"
  setitem :: "'a \<Rightarrow> 'a pyval \<Rightarrow> error + 'a"
  iter :: "'a \<Rightarrow> error + 'a pyval list"
  pb :: "'a pyval \<Rightarrow> 'f func \<Rightarrow> 'a pyval list \<Rightarrow> 'a pyval list \<Rightarrow> 'a pyval list
           \<Rightarrow> error option \<times> ('a pyval \<Rightarrow> 'a pyval) list"

definition node :: "('f, 'a) state \<Rightarrow> ref \<Rightarrow> ('f, 'a) Function option" where
  "node s r = (if r < length (heap s) then heap s ! r else None)"

text \<open>\<open>[fa.x for fa in Fargs]\<close>: the first object without \<open>x\<close> raises.\<close>

fun getattr_x_list :: "('f, 'a) state \<Rightarrow> ref list \<Rightarrow> error + 'a pyval list" where
  "getattr_x_list s [] = Inr []"
| "getattr_x_list s (fa # Fargs) =
     (case node s fa of
        None \<Rightarrow> Inl AttributeError
      | Some F \<Rightarrow>
          (case getattr_x_list s Fargs of Inl e \<Rightarrow> Inl e | Inr vs \<Rightarrow> Inr (f_x F # vs)))"

text \<open>
  \<open>f.xbar\<close>: the instance attribute once \<open>xbar_from_x\<close> has set it, the class
  attribute \<open>NotSet()\<close> before.
\<close>

definition getattr_xbar :: "('f, 'a) state \<Rightarrow> ref \<Rightarrow> error + 'a pyval" where
  "getattr_xbar s r =
     (if r < length (heap s)
      then Inr (case heap s ! r of None \<Rightarrow> NotSet | Some F \<Rightarrow> f_xbar F)
      else Inl AttributeError)"

fun getattr_xbar_list :: "('f, 'a) state \<Rightarrow> ref list \<Rightarrow> error + 'a pyval list" where
  "getattr_xbar_list s [] = Inr []"
| "getattr_xbar_list s (fa # Fargs) =
     (case getattr_xbar s fa of
        Inl e \<Rightarrow> Inl e
      | Inr v \<Rightarrow>
          (case getattr_xbar_list s Fargs of Inl e \<Rightarrow> Inl e | Inr vs \<Rightarrow> Inr (v # vs)))"

definition set_x :: "ref \<Rightarrow> 'a pyval \<Rightarrow> ('f, 'a) state \<Rightarrow> ('f, 'a) state" where
  "set_x r v s =
     (case node s r of
        None \<Rightarrow> s
      | Some F \<Rightarrow> s\<lparr>heap := (heap s)[r := Some (F\<lparr>f_x := v\<rparr>)]\<rparr>)"

definition set_xbar :: "ref \<Rightarrow> 'a pyval \<Rightarrow> ('f, 'a) state \<Rightarrow> ('f, 'a) state" where
  "set_xbar r v s =
     (case node s r of
        None \<Rightarrow> s
      | Some F \<Rightarrow> s\<lparr>heap := (heap s)[r := Some (F\<lparr>f_xbar := v\<rparr>)]\<rparr>)"

subsection \<open>CGraph.__init__ and CGraph.append\<close>

text \<open>
  The state when the module has been loaded: no object, no graph. (The graph
  record of this state stands for nothing; \<open>bound\<close> is false.)
\<close>

definition empty_graph :: CGraph where
  "empty_graph =
     \<lparr>functionCount = 0, functionList = [],
      dependentFunctionList = [], independentFunctionList = []\<rparr>"

definition start :: "('f, 'a) state" where
  "start = \<lparr>heap = [], cgraph = empty_graph, bound = False, earlier = []\<rparr>"

text \<open>
  \<open>CGraph()\<close>: a new graph with count 0 and empty lists, to which
  \<open>Function.cgraph\<close> is bound from now on. The graph that was bound before is
  kept with the earlier ones.
\<close>

definition CGraph_init :: "('f, 'a) state \<Rightarrow> ('f, 'a) state" where
  "CGraph_init s =
     s\<lparr>earlier := (if bound s then earlier s @ [cgraph s] else earlier s),
       cgraph := empty_graph, bound := True\<rparr>"

definition CGraph_append :: "ref \<Rightarrow> ('f, 'a) state \<Rightarrow> ('f, 'a) state" where
  "CGraph_append func s =
     s\<lparr>cgraph := (cgraph s)\<lparr>functionCount := functionCount (cgraph s) + 1,
                             functionList := functionList (cgraph s) @ [func]\<rparr>\<rparr>"

subsection \<open>Function.create, Function.__init__, Function.Id, Function.push_forward\<close>

text \<open>
  \<open>get_ID\<close>: the count of the graph \<open>Function.cgraph\<close>, or \<open>None\<close> when there
  is no graph.
\<close>

definition get_ID :: "('f, 'a) state \<Rightarrow> nat option" where
  "get_ID s = (if bound s then Some (functionCount (cgraph s)) else None)"

text \<open>
  \<open>create\<close> makes a fresh object when it is given none, sets the five
  attributes and appends the object to the graph \<open>Function.cgraph\<close>; when
  there is no graph, \<open>cls.cgraph.append\<close> raises AttributeError, after the
  attributes have been set. The attribute \<open>xbar\<close> is not touched: a fresh
  object reads the class attribute.
\<close>

definition create ::
  "'a pyval \<Rightarrow> ref list \<Rightarrow> 'f func \<Rightarrow> ref option \<Rightarrow> 'a pyval list \<Rightarrow> ('f, 'a) state
     \<Rightarrow> (error + ref) \<times> ('f, 'a) state" where
  "create x fargs func f funcargs s =
     (case (case f of None \<Rightarrow> (length (heap s), s\<lparr>heap := heap s @ [None]\<rparr>)
                    | Some r \<Rightarrow> (r, s)) of
        (r, s1) \<Rightarrow>
          if r < length (heap s1) then
            (case s1\<lparr>heap := (heap s1)[r := Some
                     \<lparr>f_x = x, f_args = fargs, f_func = func,
                      f_ID = get_ID s1, f_funcargs = funcargs,
                      f_xbar = (case heap s1 ! r of None \<Rightarrow> NotSet | Some F \<Rightarrow> f_xbar F)\<rparr>]\<rparr> of
               s2 \<Rightarrow> if bound s2 then (Inr r, CGraph_append r s2)
                     else (Inl AttributeError, s2))
          else (Inl AttributeError, s1))"

text \<open>
  \<open>Function(x)\<close>: the new object \<open>self\<close>, a leaf of the graph when \<open>x\<close> is not
  \<open>None\<close>, with itself as its only argument and \<open>Id\<close> as its operation.
\<close>

definition Function_init :: "'a pyval \<Rightarrow> ('f, 'a) state \<Rightarrow> (error + ref) \<times> ('f, 'a) state" where
  "Function_init x s =
     (let self = length (heap s); s1 = s\<lparr>heap := heap s @ [None]\<rparr>
      in if x \<noteq> PyNone
         then (case create x [self] Id (Some self) [] s1 of
                 (Inl e, s2) \<Rightarrow> (Inl e, s2)
               | (Inr r, s2) \<Rightarrow> (Inr self, s2))
         else (Inr self, s1))"

text \<open>\<open>func(*args)\<close>: \<open>Id\<close> takes exactly one argument and returns it.\<close>

definition call_func :: "('f, 'a) algebra \<Rightarrow> 'f func \<Rightarrow> 'a pyval list \<Rightarrow> error + 'a pyval" where
  "call_func alg func args =
     (case func of
        Id \<Rightarrow> (case args of [v] \<Rightarrow> Inr v | _ \<Rightarrow> Inl TypeError)
      | Op g \<Rightarrow> forward alg g args)"

text \<open>
  \<open>Function.push_forward(func, Fargs, Fout, funcargs)\<close>. \<open>Fargs\<close> is a tuple of
  nodes, as the docstring says and as every caller passes it, and
  \<open>numpy.ndim\<close> of a tuple is positive: the branch for a single node as \<open>Fargs\<close>
  is outside this type. With \<open>Fout = None\<close> a new node is recorded; replay passes
  the node itself as \<open>Fout\<close> and only its value is overwritten.
\<close>

definition Function_push_forward ::
  "('f, 'a) algebra \<Rightarrow> 'f func \<Rightarrow> ref list \<Rightarrow> ref option \<Rightarrow> 'a pyval list \<Rightarrow> ('f, 'a) state
     \<Rightarrow> (error + ref) \<times> ('f, 'a) state" where
  "Function_push_forward alg func Fargs Fout funcargs s =
     (case getattr_x_list s Fargs of
        Inl e \<Rightarrow> (Inl e, s)
      | Inr vs \<Rightarrow>
          (case call_func alg func (vs @ funcargs) of
             Inl e \<Rightarrow> (Inl e, s)
           | Inr out \<Rightarrow>
               (case Fout of
                  None \<Rightarrow> create out Fargs func None funcargs s
                | Some r \<Rightarrow>
                    (case node s r of
                       None \<Rightarrow> (Inl AttributeError, s)
                     | Some F \<Rightarrow> (Inr r, set_x r out s)))))"

subsection \<open>CGraph.push_forward\<close>

text \<open>
  The first loop, \<open>for nf, f in enumerate(self.independentFunctionList):
  f.args[0].x = x_list[nf]\<close>. Python evaluates the right-hand side first. The
  result is the exception, if one was raised, and the state at that moment.
  (Assigning \<open>x\<close> to an object that is no node of the graph is modelled as an
  AttributeError; no node recorded through \<open>Function\<close> has such an argument.)
\<close>

fun populate_independent ::
  "nat \<Rightarrow> ref list \<Rightarrow> 'a pyval list \<Rightarrow> ('f, 'a) state \<Rightarrow> error option \<times> ('f, 'a) state" where
  "populate_independent nf [] x_list s = (None, s)"
| "populate_independent nf (f # fs) x_list s =
     (if length x_list \<le> nf then (Some IndexError, s)
      else case node s f of
        None \<Rightarrow> (Some AttributeError, s)
      | Some F \<Rightarrow>
          (case f_args F of
             [] \<Rightarrow> (Some IndexError, s)
           | a # _ \<Rightarrow>
               (case node s a of
                  None \<Rightarrow> (Some AttributeError, s)
                | Some A \<Rightarrow>
                    populate_independent (Suc nf) fs x_list (set_x a (x_list ! nf) s))))"

text \<open>The second loop: every node of the list, in order, is recomputed.\<close>

fun traverse ::
  "('f, 'a) algebra \<Rightarrow> ref list \<Rightarrow> ('f, 'a) state \<Rightarrow> error option \<times> ('f, 'a) state" where
  "traverse alg [] s = (None, s)"
| "traverse alg (f # fs) s =
     (case node s f of
        None \<Rightarrow> (Some AttributeError, s)
      | Some F \<Rightarrow>
          (case Function_push_forward alg (f_func F) (f_args F) (Some f) (f_funcargs F) s of
             (Inl e, s') \<Rightarrow> (Some e, s')
           | (Inr r, s') \<Rightarrow> traverse alg fs s'))"

definition CGraph_push_forward ::
  "('f, 'a) algebra \<Rightarrow> 'a pyval list \<Rightarrow> ('f, 'a) state \<Rightarrow> error option \<times> ('f, 'a) state" where
  "CGraph_push_forward alg x_list s =
     (case populate_independent 0 (independentFunctionList (cgraph s)) x_list s of
        (Some e, s') \<Rightarrow> (Some e, s')
      | (None, s') \<Rightarrow> traverse alg (functionList (cgraph s')) s')"

subsection \<open>Function.xbar_from_x and CGraph.pullback\<close>

text \<open>
  \<open>numpy.isscalar\<close> holds of Python's numbers and strings (NumPy's own scalars
  are counted among the numbers here), not of \<open>None\<close>, tuples or other objects.
\<close>

definition numpy_isscalar :: "'a pyval \<Rightarrow> bool" where
  "numpy_isscalar v =
     (case v of PyInt i \<Rightarrow> True | PyFloat q \<Rightarrow> True | PyStr t \<Rightarrow> True | _ \<Rightarrow> False)"

text \<open>\<open>v.zeros_like()\<close>: only objects of the algebra have the method.\<close>

definition py_zeros_like :: "('f, 'a) algebra \<Rightarrow> 'a pyval \<Rightarrow> error + 'a pyval" where
  "py_zeros_like alg v = (case v of PyObj a \<Rightarrow> zeros_like alg a | _ \<Rightarrow> Inl AttributeError)"

fun zeros_like_list :: "('f, 'a) algebra \<Rightarrow> 'a pyval list \<Rightarrow> error + 'a pyval list" where
  "zeros_like_list alg [] = Inr []"
| "zeros_like_list alg (xi # xs) =
     (case py_zeros_like alg xi of
        Inl e \<Rightarrow> Inl e
      | Inr z \<Rightarrow>
          (case zeros_like_list alg xs of Inl e \<Rightarrow> Inl e | Inr zs \<Rightarrow> Inr (z # zs)))"

definition xbar_from_x ::
  "('f, 'a) algebra \<Rightarrow> ref \<Rightarrow> ('f, 'a) state \<Rightarrow> error option \<times> ('f, 'a) state" where
  "xbar_from_x alg self s =
     (case node s self of
        None \<Rightarrow> (Some AttributeError, s)
      | Some F \<Rightarrow>
          if numpy_isscalar (f_x F) then (None, set_xbar self (PyFloat 0) s)
          else (case f_x F of
                  PyTuple xs \<Rightarrow>
                    (case zeros_like_list alg xs of
                       Inl e \<Rightarrow> (Some e, s)
                     | Inr zs \<Rightarrow> (None, set_xbar self (PyTuple zs) s))
                | v \<Rightarrow>
                    (case py_zeros_like alg v of
                       Inl e \<Rightarrow> (Some e, s)
                     | Inr z \<Rightarrow> (None, set_xbar self z s))))"

text \<open>\<open>for f in self.functionList: f.xbar_from_x()\<close>\<close>

fun init_xbar ::
  "('f, 'a) algebra \<Rightarrow> ref list \<Rightarrow> ('f, 'a) state \<Rightarrow> error option \<times> ('f, 'a) state" where
  "init_xbar alg [] s = (None, s)"
| "init_xbar alg (f # fs) s =
     (case xbar_from_x alg f s of
        (Some e, s') \<Rightarrow> (Some e, s')
      | (None, s') \<Rightarrow> init_xbar alg fs s')"

text \<open>
  \<open>xb[...] = v\<close>: item assignment, which Python's numbers, strings, tuples,
  \<open>None\<close> and \<open>NotSet\<close> do not support.
\<close>

definition py_setitem :: "('f, 'a) algebra \<Rightarrow> 'a pyval \<Rightarrow> 'a pyval \<Rightarrow> error + 'a pyval" where
  "py_setitem alg xb v =
     (case xb of
        PyObj a \<Rightarrow> (case setitem alg a v of Inl e \<Rightarrow> Inl e | Inr a' \<Rightarrow> Inr (PyObj a'))
      | _ \<Rightarrow> Inl TypeError)"

text \<open>
  \<open>for nf, f in enumerate(self.dependentFunctionList):
  f.xbar[...] = xbar_list[nf]\<close>
\<close>

fun seed_xbar ::
  "('f, 'a) algebra \<Rightarrow> nat \<Rightarrow> ref list \<Rightarrow> 'a pyval list \<Rightarrow> ('f, 'a) state
     \<Rightarrow> error option \<times> ('f, 'a) state" where
  "seed_xbar alg nf [] xbar_list s = (None, s)"
| "seed_xbar alg nf (f # fs) xbar_list s =
     (if length xbar_list \<le> nf then (Some IndexError, s)
      else case getattr_xbar s f of
        Inl e \<Rightarrow> (Some e, s)
      | Inr xb \<Rightarrow>
          (case py_setitem alg xb (xbar_list ! nf) of
             Inl e \<Rightarrow> (Some e, s)
           | Inr xb' \<Rightarrow> seed_xbar alg (Suc nf) fs xbar_list (set_xbar f xb' s)))"

text \<open>\<open>list(v)\<close>\<close>

definition py_list :: "('f, 'a) algebra \<Rightarrow> 'a pyval \<Rightarrow> error + 'a pyval list" where
  "py_list alg v =
     (case v of
        PyTuple vs \<Rightarrow> Inr vs
      | PyStr t \<Rightarrow> Inr (map (\<lambda>c. PyStr [c]) t)
      | PyObj a \<Rightarrow> iter alg a
      | _ \<Rightarrow> Inl TypeError)"

text \<open>
  The objects of \<open>out\<close> are the adjoints of the argument nodes, position by
  position: the changes of the pullback function are made to the adjoint the
  argument node holds, in the order of the positions.
\<close>

definition update_xbar ::
  "ref \<Rightarrow> ('a pyval \<Rightarrow> 'a pyval) \<Rightarrow> ('f, 'a) state \<Rightarrow> ('f, 'a) state" where
  "update_xbar a u s =
     (case node s a of None \<Rightarrow> s | Some A \<Rightarrow> set_xbar a (u (f_xbar A)) s)"

fun write_out ::
  "ref list \<Rightarrow> ('a pyval \<Rightarrow> 'a pyval) list \<Rightarrow> ('f, 'a) state \<Rightarrow> ('f, 'a) state" where
  "write_out (a # as) (u # us) s = write_out as us (update_xbar a u s)"
| "write_out as us s = s"

definition Function_pullback ::
  "('f, 'a) algebra \<Rightarrow> ref \<Rightarrow> ('f, 'a) state \<Rightarrow> error option \<times> ('f, 'a) state" where
  "Function_pullback alg F s =
     (case node s F of
        None \<Rightarrow> (Some AttributeError, s)
      | Some N \<Rightarrow>
          (case getattr_x_list s (f_args N) of
             Inl e \<Rightarrow> (Some e, s)
           | Inr args_list \<Rightarrow>
               (case getattr_xbar_list s (f_args N) of
                  Inl e \<Rightarrow> (Some e, s)
                | Inr argsbar_list \<Rightarrow>
                    (case f_x N of
                       PyTuple xs \<Rightarrow>
                         (case py_list alg (f_xbar N) of
                            Inl e \<Rightarrow> (Some e, s)
                          | Inr xbars \<Rightarrow>
                              (case xs of
                                 [] \<Rightarrow> (Some IndexError, s)
                               | x0 # _ \<Rightarrow>
                                   (case pb alg x0 (f_func N) (xbars @ args_list @ xs)
                                           argsbar_list (f_funcargs N) of
                                      (e, outs) \<Rightarrow> (e, write_out (f_args N) outs s))))
                     | v \<Rightarrow>
                         (case pb alg v (f_func N) ([f_xbar N] @ args_list @ [v])
                                 argsbar_list (f_funcargs N) of
                            (e, outs) \<Rightarrow> (e, write_out (f_args N) outs s))))))"

text \<open>\<open>for f in self.functionList[::-1]: f.__class__.pullback(f)\<close>, on the reversed list.\<close>

fun pullback_all ::
  "('f, 'a) algebra \<Rightarrow> ref list \<Rightarrow> ('f, 'a) state \<Rightarrow> error option \<times> ('f, 'a) state" where
  "pullback_all alg [] s = (None, s)"
| "pullback_all alg (f # fs) s =
     (case Function_pullback alg f s of
        (Some e, s') \<Rightarrow> (Some e, s')
      | (None, s') \<Rightarrow> pullback_all alg fs s')"

definition no_dependent_msg :: string where
  "no_dependent_msg =
     ''You forgot to specify which variables are dependent!'' @ [CHR 0x0A]
     @ '' e.g. with cg.dependentFunctionList = [F1,F2]''"

definition CGraph_pullback ::
  "('f, 'a) algebra \<Rightarrow> 'a pyval list \<Rightarrow> ('f, 'a) state \<Rightarrow> error option \<times> ('f, 'a) state" where
  "CGraph_pullback alg xbar_list s =
     (if length (dependentFunctionList (cgraph s)) = 0
      then (Some (Exception no_dependent_msg), s)
      else case init_xbar alg (functionList (cgraph s)) s of
        (Some e, s1) \<Rightarrow> (Some e, s1)
      | (None, s1) \<Rightarrow>
          (case seed_xbar alg 0 (dependentFunctionList (cgraph s1)) xbar_list s1 of
             (Some e, s2) \<Rightarrow> (Some e, s2)
           | (None, s2) \<Rightarrow> pullback_all alg (rev (functionList (cgraph s2))) s2))"

subsection \<open>A tracing session\<close>

text \<open>
  What user code does: make a graph, wrap a value as a leaf, apply an operation
  to nodes (the arithmetic operators and methods of \<open>Function\<close> all call
  \<open>Function.push_forward\<close> without \<open>Fout\<close>), and, on any graph it has made,
  declare the independent and the dependent nodes and replay in either
  direction. A call that raises leaves the state as it was when the exception
  was raised.
\<close>

datatype 'a graph_method =
    SetIndependent "ref list"
  | SetDependent "ref list"
  | PushForward "'a pyval list"
  | Pullback "'a pyval list"

datatype ('f, 'a) command =
    NewCGraph
  | NewFunction "'a pyval"
  | Apply "'f func" "ref list" "'a pyval list"
  | Call nat "'a graph_method"

fun call_method ::
  "('f, 'a) algebra \<Rightarrow> 'a graph_method \<Rightarrow> ('f, 'a) state \<Rightarrow> ('f, 'a) state" where
  "call_method alg (SetIndependent fs) s =
     s\<lparr>cgraph := (cgraph s)\<lparr>independentFunctionList := fs\<rparr>\<rparr>"
| "call_method alg (SetDependent fs) s =
     s\<lparr>cgraph := (cgraph s)\<lparr>dependentFunctionList := fs\<rparr>\<rparr>"
| "call_method alg (PushForward x_list) s = snd (CGraph_push_forward alg x_list s)"
| "call_method alg (Pullback xbar_list) s = snd (CGraph_pullback alg xbar_list s)"

text \<open>
  The graphs are numbered in the order they were made; the last one is the
  graph \<open>Function.cgraph\<close>. A method of an earlier graph runs with that graph as
  \<open>self\<close>, and the graph is put back among the earlier ones afterwards.
\<close>

definition graphs :: "('f, 'a) state \<Rightarrow> CGraph list" where
  "graphs s = (if bound s then earlier s @ [cgraph s] else [])"

definition as_self :: "CGraph \<Rightarrow> ('f, 'a) state \<Rightarrow> ('f, 'a) state" where
  "as_self g s = s\<lparr>cgraph := g\<rparr>"

definition on_graph ::
  "nat \<Rightarrow> (('f, 'a) state \<Rightarrow> ('f, 'a) state) \<Rightarrow> ('f, 'a) state \<Rightarrow> ('f, 'a) state" where
  "on_graph k m s =
     (if \<not> bound s then s
      else if k = length (earlier s) then m s
      else if k < length (earlier s) then
        (case m (as_self (earlier s ! k) s) of
           s' \<Rightarrow> s'\<lparr>cgraph := cgraph s, earlier := (earlier s')[k := cgraph s']\<rparr>)
      else s)"

fun exec :: "('f, 'a) algebra \<Rightarrow> ('f, 'a) state \<Rightarrow> ('f, 'a) command \<Rightarrow> ('f, 'a) state" where
  "exec alg s NewCGraph = CGraph_init s"
| "exec alg s (NewFunction x) = snd (Function_init x s)"
| "exec alg s (Apply func Fargs funcargs) =
     snd (Function_push_forward alg func Fargs None funcargs s)"
| "exec alg s (Call k m) = on_graph k (call_method alg m) s"

definition run :: "('f, 'a) algebra \<Rightarrow> ('f, 'a) command list \<Rightarrow> ('f, 'a) state" where
  "run alg cs = foldl (exec alg) start cs"

section \<open>tracer: the properties\<close>

text \<open>
  The structural fields of a node, and the structure of a state: the graph
  record (the count and the three lists), the binding of \<open>Function.cgraph\<close>,
  the earlier graphs and, for every object of the store, whether it is a node
  and with which structural fields. Only \<open>x\<close> and \<open>xbar\<close> are left out.
\<close>

definition wiring ::
  "('f, 'a) Function \<Rightarrow> 'f func \<times> ref list \<times> 'a pyval list \<times> nat option" where
  "wiring F = (f_func F, f_args F, f_funcargs F, f_ID F)"

definition skeleton ::
  "('f, 'a) state \<Rightarrow>
     CGraph \<times> bool \<times> CGraph list
       \<times> ('f func \<times> ref list \<times> 'a pyval list \<times> nat option) option list" where
  "skeleton s = (cgraph s, bound s, earlier s, map (map_option wiring) (heap s))"

text \<open>
  Forward consistency of a node: its value is its operation applied to the
  current values of its arguments, followed by its auxiliary arguments.
\<close>

definition consistent :: "('f, 'a) algebra \<Rightarrow> ('f, 'a) state \<Rightarrow> ref \<Rightarrow> bool" where
  "consistent alg s r =
     (case node s r of
        None \<Rightarrow> False
      | Some F \<Rightarrow>
          (case getattr_x_list s (f_args F) of
             Inl e \<Rightarrow> False
           | Inr vs \<Rightarrow> call_func alg (f_func F) (vs @ f_funcargs F) = Inr (f_x F)))"

text \<open>A leaf: a node whose argument tuple holds the node itself and nothing else.\<close>

definition is_leaf :: "('f, 'a) state \<Rightarrow> ref \<Rightarrow> bool" where
  "is_leaf s r = (case node s r of None \<Rightarrow> False | Some F \<Rightarrow> f_args F = [r])"

text \<open>The \<open>ID\<close> of one node is strictly smaller than that of another.\<close>

definition ID_less :: "('f, 'a) Function \<Rightarrow> ('f, 'a) Function \<Rightarrow> bool" where
  "ID_less A F = (case (f_ID A, f_ID F) of (Some i, Some j) \<Rightarrow> i < j | _ \<Rightarrow> False)"

text \<open>
  The topological order as the specification words it: every argument of
  every node of the list has a strictly smaller \<open>ID\<close>.
\<close>

definition strict_topological_at :: "('f, 'a) state \<Rightarrow> ref \<Rightarrow> bool" where
  "strict_topological_at s r =
     (case node s r of
        None \<Rightarrow> False
      | Some F \<Rightarrow>
          list_all (\<lambda>a. case node s a of None \<Rightarrow> False | Some A \<Rightarrow> ID_less A F)
            (f_args F))"

definition strict_topological :: "('f, 'a) state \<Rightarrow> bool" where
  "strict_topological s = list_all (strict_topological_at s) (functionList (cgraph s))"

text \<open>
  The order the code keeps, for the node list \<open>fl\<close> of one graph: every
  argument is a node; an argument that is in the same list and is not the node
  itself has a strictly smaller \<open>ID\<close>; and a node is its own argument only as
  a leaf, with \<open>Id\<close> as its operation and itself as its only argument. All the
  graphs of a state keep it.
\<close>

definition topological_at :: "('f, 'a) state \<Rightarrow> ref list \<Rightarrow> ref \<Rightarrow> bool" where
  "topological_at s fl r =
     (case node s r of
        None \<Rightarrow> False
      | Some F \<Rightarrow>
          list_all (\<lambda>a. if a = r then f_func F = Id \<and> f_args F = [r]
                         else (case node s a of
                                 None \<Rightarrow> False
                               | Some A \<Rightarrow> a \<in> set fl \<longrightarrow> ID_less A F))
            (f_args F))"

definition topological_graph :: "('f, 'a) state \<Rightarrow> CGraph \<Rightarrow> bool" where
  "topological_graph s g = list_all (topological_at s (functionList g)) (functionList g)"

definition topological :: "('f, 'a) state \<Rightarrow> bool" where
  "topological s = list_all (topological_graph s) (graphs s)"

text \<open>
  The invariant of a tracing session. Every argument of a node of the store is
  a node. Along the node list of every graph, every node carries its position
  as \<open>ID\<close>, occurs once, and is either a leaf that refers to itself or has
  neither itself nor a later node of the list among its arguments.
\<close>

definition well_placed :: "('f, 'a) Function \<Rightarrow> ref \<Rightarrow> ref list \<Rightarrow> ref list \<Rightarrow> bool" where
  "well_placed F f pre fs \<longleftrightarrow>
     f_ID F = Some (length pre) \<and> f \<notin> set pre
     \<and> ((f_args F = [f] \<and> f_func F = Id \<and> f_funcargs F = [])
        \<or> (f \<notin> set (f_args F) \<and> set (f_args F) \<inter> set fs = {}))"

fun wired :: "('f, 'a) state \<Rightarrow> ref list \<Rightarrow> ref list \<Rightarrow> bool" where
  "wired s pre [] = True"
| "wired s pre (f # fs) =
     ((case node s f of None \<Rightarrow> False | Some F \<Rightarrow> well_placed F f pre fs)
      \<and> wired s (pre @ [f]) fs)"

definition graph_inv :: "('f, 'a) state \<Rightarrow> CGraph \<Rightarrow> bool" where
  "graph_inv s g \<longleftrightarrow>
     functionCount g = length (functionList g) \<and> wired s [] (functionList g)"

definition session_inv :: "('f, 'a) state \<Rightarrow> bool" where
  "session_inv s \<longleftrightarrow>
     (\<forall>r F. node s r = Some F \<longrightarrow> (\<forall>a\<in>set (f_args F). node s a \<noteq> None))
     \<and> (\<forall>g\<in>set (cgraph s # earlier s). graph_inv s g)"

text \<open>
  The additive identity shaped like a value, in the words of the
  specification: the float zero for a scalar (\<open>numpy.isscalar\<close> counts
  Python's numbers and strings), a tuple of the same length whose elements are
  the \<open>zeros_like()\<close> of the elements for a tuple, the value's own
  \<open>zeros_like()\<close> for an object of the algebra. \<open>zero_shaped alg v z\<close> says that
  \<open>z\<close> is this identity for \<open>v\<close>; \<open>has_zero alg v\<close> that \<open>v\<close> has one.
\<close>

definition zero_element :: "('f, 'a) algebra \<Rightarrow> 'a pyval \<Rightarrow> 'a pyval \<Rightarrow> bool" where
  "zero_element alg xi zi = (case xi of PyObj a \<Rightarrow> zeros_like alg a = Inr zi | _ \<Rightarrow> False)"

fun zero_shaped :: "('f, 'a) algebra \<Rightarrow> 'a pyval \<Rightarrow> 'a pyval \<Rightarrow> bool" where
  "zero_shaped alg (PyInt i) z = (z = PyFloat 0)"
| "zero_shaped alg (PyFloat q) z = (z = PyFloat 0)"
| "zero_shaped alg (PyStr t) z = (z = PyFloat 0)"
| "zero_shaped alg (PyTuple xs) z =
     (case z of PyTuple zs \<Rightarrow> list_all2 (zero_element alg) xs zs | _ \<Rightarrow> False)"
| "zero_shaped alg (PyObj a) z = (zeros_like alg a = Inr z)"
| "zero_shaped alg PyNone z = False"
| "zero_shaped alg NotSet z = False"

definition returns :: "error + 'b \<Rightarrow> bool" where
  "returns r = (case r of Inl e \<Rightarrow> False | Inr v \<Rightarrow> True)"

fun has_zero :: "('f, 'a) algebra \<Rightarrow> 'a pyval \<Rightarrow> bool" where
  "has_zero alg (PyInt i) = True"
| "has_zero alg (PyFloat q) = True"
| "has_zero alg (PyStr t) = True"
| "has_zero alg (PyTuple xs) =
     list_all (\<lambda>xi. case xi of PyObj a \<Rightarrow> returns (zeros_like alg a) | _ \<Rightarrow> False) xs"
| "has_zero alg (PyObj a) = returns (zeros_like alg a)"
| "has_zero alg PyNone = False"
| "has_zero alg NotSet = False"

definition zero_adjoint :: "('f, 'a) algebra \<Rightarrow> ('f, 'a) state \<Rightarrow> ref \<Rightarrow> bool" where
  "zero_adjoint alg s r =
     (case node s r of None \<Rightarrow> False | Some F \<Rightarrow> zero_shaped alg (f_x F) (f_xbar F))"

definition node_has_zero :: "('f, 'a) algebra \<Rightarrow> ('f, 'a) state \<Rightarrow> ref \<Rightarrow> bool" where
  "node_has_zero alg s r =
     (case node s r of None \<Rightarrow> False | Some F \<Rightarrow> has_zero alg (f_x F))"

section \<open>Concrete inputs\<close>

text \<open>
  A small algebra to run the definitions on: the objects are integers, with
  addition and multiplication as operations and the pullbacks that belong to
  them, and \<open>a[...] = v\<close> copies the integer \<open>v\<close> into \<open>a\<close>.
\<close>

datatype opname = add | mul

definition ex_forward :: "opname \<Rightarrow> int pyval list \<Rightarrow> error + int pyval" where
  "ex_forward g args =
     (case args of
        [PyObj a, PyObj b] \<Rightarrow> Inr (PyObj (case g of add \<Rightarrow> a + b | mul \<Rightarrow> a * b))
      | _ \<Rightarrow> Inl TypeError)"

definition ex_setitem :: "int \<Rightarrow> int pyval \<Rightarrow> error + int" where
  "ex_setitem a v = (case v of PyObj b \<Rightarrow> Inr b | PyInt b \<Rightarrow> Inr b | _ \<Rightarrow> Inl TypeError)"

definition ex_add :: "int \<Rightarrow> int pyval \<Rightarrow> int pyval" where
  "ex_add c v = (case v of PyObj b \<Rightarrow> PyObj (b + c) | _ \<Rightarrow> v)"

definition ex_pb ::
  "int pyval \<Rightarrow> opname func \<Rightarrow> int pyval list \<Rightarrow> int pyval list \<Rightarrow> int pyval list
     \<Rightarrow> error option \<times> (int pyval \<Rightarrow> int pyval) list" where
  "ex_pb v func args out funcargs =
     (case (func, args) of
        (Id, _) \<Rightarrow> (None, [])
      | (Op add, [PyObj ybar, PyObj x1, PyObj x2, y]) \<Rightarrow>
          (None, [ex_add ybar, ex_add ybar])
      | (Op mul, [PyObj ybar, PyObj x1, PyObj x2, y]) \<Rightarrow>
          (None, [ex_add (ybar * x2), ex_add (ybar * x1)])
      | _ \<Rightarrow> (Some TypeError, []))"

definition ex_alg :: "(opname, int) algebra" where
  "ex_alg =
     \<lparr>forward = ex_forward,
      zeros_like = (\<lambda>a. Inr (PyObj 0)),
      setitem = ex_setitem,
      iter = (\<lambda>a. Inl TypeError),
      pb = ex_pb\<rparr>"

text \<open>
  The graph of the docstring of \<open>CGraph\<close>, \<open>y = x1 * (x2 + x3)\<close> at
  \<open>x1 = 2\<close>, \<open>x2 = 3\<close>, \<open>x3 = 4\<close>, the references counted from 0.
\<close>

definition ex_trace :: "(opname, int) command list" where
  "ex_trace =
     [NewCGraph, NewFunction (PyObj 2), NewFunction (PyObj 3), NewFunction (PyObj 4),
      Apply (Op add) [1, 2] [], Apply (Op mul) [0, 3] [],
      Call 0 (SetIndependent [0, 1, 2]), Call 0 (SetDependent [4])]"

definition ex_graph :: "(opname, int) state" where
  "ex_graph = run ex_alg ex_trace"

text \<open>One leaf holding a Python float, declared independent and dependent.\<close>

definition ex_scalar_graph :: "(opname, int) state" where
  "ex_scalar_graph =
     run ex_alg [NewCGraph, NewFunction (PyFloat 3),
                 Call 0 (SetIndependent [0]), Call 0 (SetDependent [0])]"

text \<open>One leaf holding a tuple of two Python floats, declared dependent.\<close>

definition ex_tuple_graph :: "(opname, int) state" where
  "ex_tuple_graph =
     run ex_alg [NewCGraph, NewFunction (PyTuple [PyFloat 1, PyFloat 2]),
                 Call 0 (SetDependent [0])]"

text \<open>Two leaves, both declared independent.\<close>

definition ex_two_leaves :: "(opname, int) state" where
  "ex_two_leaves =
     run ex_alg [NewCGraph, NewFunction (PyObj 2), NewFunction (PyObj 3),
                 Call 0 (SetIndependent [0, 1])]"

text \<open>
  Three leaves, holding a float, a tuple of two objects of the algebra and an
  object of the algebra; the last is declared dependent.
\<close>

definition ex_mixed_graph :: "(opname, int) state" where
  "ex_mixed_graph =
     run ex_alg [NewCGraph, NewFunction (PyFloat 3), NewFunction (PyTuple [PyObj 1, PyObj 2]),
                 NewFunction (PyObj 4), Call 0 (SetDependent [2])]"

text \<open>
  Two graphs: \<open>x\<close> and \<open>y\<close> are recorded in the first, their product in the
  second.
\<close>

definition ex_two_graphs :: "(opname, int) state" where
  "ex_two_graphs =
     run ex_alg [NewCGraph, NewFunction (PyObj 2), NewFunction (PyObj 3),
                 NewCGraph, Apply (Op mul) [0, 1] []]"

text \<open>\<open>y = x * x\<close> at \<open>x = 3\<close>: the argument \<open>x\<close> occurs twice.\<close>

definition ex_square :: "(opname, int) state" where
  "ex_square =
     run ex_alg [NewCGraph, NewFunction (PyObj 3), Apply (Op mul) [0, 0] [],
                 Call 0 (SetIndependent [0]), Call 0 (SetDependent [1])]"

text \<open>
  For \<open>nthderiv\<close>: integers compare and test as Python's do, other objects
  refuse; the base function and the derivative function count their calls in
  the state.
\<close>

definition ex_ops :: "int objops" where
  "ex_ops = \<lparr>obj_lt_zero = (\<lambda>v. Inl TypeError), obj_truth = (\<lambda>a. Inr True)\<rparr>"

definition ex_fn0 :: "(int, nat) pyfun" where
  "ex_fn0 args kwargs st = (Inr (KwObj 1), Suc st)"

definition ex_fn :: "(int, nat) pyfun" where
  "ex_fn args kwargs st = (Inr (KwObj 2), Suc st)"

section \<open>nthderiv: theorems\<close>

lemma basecase_call:
  "basecase ops fn0 dmn ext = Inr wrap \<Longrightarrow> call (wrap f) = wrapped_f ops fn0 f"
  by (auto simp: basecase_def split: if_splits)

lemma dict_pop_other:
  "key \<noteq> k \<Longrightarrow> map_of (snd (dict_pop key d kw)) k = map_of kw k"
  by (simp add: dict_pop_def delete_conv')

text \<open>
  C7. A function built by \<open>basecase\<close>, called with a negative integer as the
  derivative order \<open>n\<close>, raises ValueError, whatever the other arguments are, and
  the outside world is as it was before the call: neither the base function nor
  the derivative function has run.
\<close>

theorem basecase_negative_order_raises:
  assumes "basecase ops fn0 dmn ext = Inr wrap"
    and "map_of kwargs ''n'' = Some (KwInt n)"
    and "n < 0"
  shows "\<exists>msg. call (wrap f) args kwargs st = (Inl (ValueError msg), st)"
proof -
  have "map_of (snd (dict_pop ''out'' KwNone kwargs)) ''n'' = Some (KwInt n)"
    using assms(2) by (simp add: dict_pop_other)
  then have "fst (dict_pop ''n'' (KwInt 0) (snd (dict_pop ''out'' KwNone kwargs))) = KwInt n"
    by (simp add: dict_pop_def)
  then show ?thesis
    using assms(3) basecase_call [OF assms(1)]
    by (auto simp: wrapped_f_def lt_zero_def split: prod.splits)
qed

theorem basecase_negative_order_raises_witness:
  "basecase ex_ops ex_fn0 DOM_ALL 0
     = Inr (\<lambda>f. \<lparr>call = wrapped_f ex_ops ex_fn0 f, domain = DOM_ALL, extras = 0\<rparr>)
   \<and> map_of [(''n'', KwInt (- 1))] ''n'' = Some (KwInt (- 1)) \<and> (- 1 :: int) < 0
   \<and> (\<exists>msg. call \<lparr>call = wrapped_f ex_ops ex_fn0 ex_fn, domain = DOM_ALL, extras = 0\<rparr>
               [KwObj 5] [(''n'', KwInt (- 1))] 7 = (Inl (ValueError msg), 7))"
proof -
  have b: "basecase ex_ops ex_fn0 DOM_ALL 0
     = Inr (\<lambda>f. \<lparr>call = wrapped_f ex_ops ex_fn0 f, domain = DOM_ALL, extras = 0\<rparr>)"
    by (simp add: basecase_def domain_constants_def)
  have m: "map_of [(''n'', KwInt (- 1))] ''n'' = Some (KwInt (- 1) :: int kwval)" by simp
  have n: "(- 1 :: int) < 0" by simp
  show ?thesis
    using basecase_negative_order_raises [OF b m n, of ex_fn "[KwObj 5]" 7] b by simp
qed

text \<open>
  C8. A function built by \<open>basecase\<close>, called with \<open>n = 0\<close> or without \<open>n\<close>
  (and with no keyword other than \<open>out\<close> and \<open>n\<close>), is the call of the base
  function on the same positional arguments, and on \<open>out\<close> when one is given:
  the same result and the same effect.
\<close>

theorem basecase_order_zero_is_base_function:
  assumes "basecase ops fn0 dmn ext = Inr wrap"
    and "set (map fst kwargs) \<subseteq> {''out'', ''n''}"
    and "map_of kwargs ''n'' = None \<or> map_of kwargs ''n'' = Some (KwInt 0)"
  shows "call (wrap f) args kwargs st =
           (case map_of kwargs ''out'' of
              None \<Rightarrow> fn0 args [] st
            | Some KwNone \<Rightarrow> fn0 args [] st
            | Some out \<Rightarrow> fn0 args [(''out'', out)] st)"
proof -
  have n: "fst (dict_pop ''n'' (KwInt 0) (snd (dict_pop ''out'' KwNone kwargs))) = KwInt 0"
    using assms(3) by (auto simp: dict_pop_def delete_conv')
  have "set (map fst (AList.delete ''n'' (AList.delete ''out'' kwargs))) = {}"
    using assms(2) by (auto simp: delete_keys)
  then have e: "snd (dict_pop ''n'' (KwInt 0) (snd (dict_pop ''out'' KwNone kwargs))) = []"
    by (simp add: dict_pop_def)
  have o: "fst (dict_pop ''out'' KwNone kwargs) =
             (case map_of kwargs ''out'' of None \<Rightarrow> KwNone | Some v \<Rightarrow> v)"
    by (simp add: dict_pop_def)
  show ?thesis
    using n e o basecase_call [OF assms(1), of f]
    by (auto simp: wrapped_f_def lt_zero_def truth_def split: prod.splits option.splits kwval.splits)
qed

theorem basecase_order_zero_is_base_function_witness:
  "call \<lparr>call = wrapped_f ex_ops ex_fn0 ex_fn, domain = DOM_ALL, extras = 0\<rparr>
       [KwObj 5] [(''n'', KwInt 0)] 7 = ex_fn0 [KwObj 5] [] 7
   \<and> call \<lparr>call = wrapped_f ex_ops ex_fn0 ex_fn, domain = DOM_ALL, extras = 0\<rparr>
       [KwObj 5] [(''out'', KwObj 9)] 7 = ex_fn0 [KwObj 5] [(''out'', KwObj 9)] 7"
proof -
  have b: "basecase ex_ops ex_fn0 DOM_ALL 0
     = Inr (\<lambda>f. \<lparr>call = wrapped_f ex_ops ex_fn0 f, domain = DOM_ALL, extras = 0\<rparr>)"
    by (simp add: basecase_def domain_constants_def)
  have 1: "set (map fst [(''n'', KwInt 0 :: int kwval)]) \<subseteq> {''out'', ''n''}" by simp
  have 2: "map_of [(''n'', KwInt 0 :: int kwval)] ''n'' = None
         \<or> map_of [(''n'', KwInt 0 :: int kwval)] ''n'' = Some (KwInt 0)" by simp
  have 3: "set (map fst [(''out'', KwObj 9 :: int kwval)]) \<subseteq> {''out'', ''n''}" by simp
  have 4: "map_of [(''out'', KwObj 9 :: int kwval)] ''n'' = None
         \<or> map_of [(''out'', KwObj 9 :: int kwval)] ''n'' = Some (KwInt 0)" by simp
  show ?thesis
    using basecase_order_zero_is_base_function [OF b 1 2, of ex_fn "[KwObj 5]" 7]
      basecase_order_zero_is_base_function [OF b 3 4, of ex_fn "[KwObj 5]" 7]
    by simp
qed

section \<open>tracer: theorems\<close>

lemmas session_defs = run_def start_def empty_graph_def CGraph_init_def get_ID_def
  on_graph_def as_self_def Function_init_def create_def CGraph_append_def Function_push_forward_def
  node_def call_func_def set_x_def set_xbar_def update_xbar_def Let_def
  ex_alg_def ex_forward_def ex_setitem_def ex_pb_def ex_add_def

subsection \<open>The store\<close>

lemma node_set_x:
  "node (set_x r v s) q = (if q = r then map_option (\<lambda>F. F\<lparr>f_x := v\<rparr>) (node s q) else node s q)"
  by (auto simp: set_x_def node_def split: option.splits)

lemma node_set_xbar:
  "node (set_xbar r v s) q
     = (if q = r then map_option (\<lambda>F. F\<lparr>f_xbar := v\<rparr>) (node s q) else node s q)"
  by (auto simp: set_xbar_def node_def split: option.splits)

lemma cgraph_set_x [simp]: "cgraph (set_x r v s) = cgraph s"
  by (simp add: set_x_def split: option.splits)

lemma cgraph_set_xbar [simp]: "cgraph (set_xbar r v s) = cgraph s"
  by (simp add: set_xbar_def split: option.splits)

lemma rest_set_x [simp]:
  "bound (set_x r v s) = bound s" "earlier (set_x r v s) = earlier s"
  by (simp_all add: set_x_def split: option.splits)

lemma rest_set_xbar [simp]:
  "bound (set_xbar r v s) = bound s" "earlier (set_xbar r v s) = earlier s"
  by (simp_all add: set_xbar_def split: option.splits)

lemma length_heap_set_x [simp]: "length (heap (set_x r v s)) = length (heap s)"
  by (simp add: set_x_def split: option.splits)

lemma length_heap_set_xbar [simp]: "length (heap (set_xbar r v s)) = length (heap s)"
  by (simp add: set_xbar_def split: option.splits)

lemma skeleton_eq_iff:
  "skeleton s' = skeleton s \<longleftrightarrow>
     cgraph s' = cgraph s \<and> bound s' = bound s \<and> earlier s' = earlier s
     \<and> length (heap s') = length (heap s)
     \<and> (\<forall>r. map_option wiring (node s' r) = map_option wiring (node s r))"
proof -
  have "map (map_option wiring) (heap s') = map (map_option wiring) (heap s) \<longleftrightarrow>
        length (heap s') = length (heap s)
        \<and> (\<forall>r. map_option wiring (node s' r) = map_option wiring (node s r))"
    by (auto simp: list_eq_iff_nth_eq node_def)
  then show ?thesis by (auto simp: skeleton_def)
qed

lemma wiring_update [simp]:
  "wiring (F\<lparr>f_x := v\<rparr>) = wiring F" "wiring (F\<lparr>f_xbar := v\<rparr>) = wiring F"
  by (simp_all add: wiring_def)

subsection \<open>Replay changes values and adjoints only\<close>

lemma skeleton_set_x [simp]: "skeleton (set_x r v s) = skeleton s"
  by (simp add: skeleton_eq_iff node_set_x option.map_comp comp_def)

lemma skeleton_set_xbar [simp]: "skeleton (set_xbar r v s) = skeleton s"
  by (simp add: skeleton_eq_iff node_set_xbar option.map_comp comp_def)

lemma skeleton_populate_independent:
  "skeleton (snd (populate_independent nf fs x_list s)) = skeleton s"
  by (induction fs arbitrary: nf s) (auto split: option.splits list.splits)

lemma skeleton_replay_node:
  "skeleton (snd (Function_push_forward alg func Fargs (Some r) funcargs s)) = skeleton s"
  by (auto simp: Function_push_forward_def split: sum.splits option.splits)

lemma skeleton_traverse: "skeleton (snd (traverse alg fs s)) = skeleton s"
proof (induction fs arbitrary: s)
  case Nil
  show ?case by simp
next
  case (Cons f fs)
  show ?case
  proof (cases "node s f")
    case None
    then show ?thesis by simp
  next
    case (Some F)
    obtain res s' where p:
      "Function_push_forward alg (f_func F) (f_args F) (Some f) (f_funcargs F) s = (res, s')"
      by (cases "Function_push_forward alg (f_func F) (f_args F) (Some f) (f_funcargs F) s")
    have "skeleton s' = skeleton s"
      using skeleton_replay_node [of alg "f_func F" "f_args F" f "f_funcargs F" s] p by simp
    then show ?thesis
      using Some p Cons.IH [of s'] by (cases res) simp_all
  qed
qed

lemma skeleton_xbar_from_x: "skeleton (snd (xbar_from_x alg r s)) = skeleton s"
  by (auto simp: xbar_from_x_def split: option.splits pyval.splits sum.splits)

lemma skeleton_init_xbar: "skeleton (snd (init_xbar alg fs s)) = skeleton s"
proof (induction fs arbitrary: s)
  case Nil
  show ?case by simp
next
  case (Cons f fs)
  obtain e s' where p: "xbar_from_x alg f s = (e, s')"
    by (cases "xbar_from_x alg f s")
  have "skeleton s' = skeleton s"
    using skeleton_xbar_from_x [of alg f s] p by simp
  then show ?case
    using p Cons.IH [of s'] by (cases e) simp_all
qed

lemma skeleton_seed_xbar: "skeleton (snd (seed_xbar alg nf fs xbar_list s)) = skeleton s"
  by (induction fs arbitrary: nf s) (auto split: sum.splits)

lemma skeleton_update_xbar [simp]: "skeleton (update_xbar a u s) = skeleton s"
  by (simp add: update_xbar_def split: option.splits)

lemma skeleton_write_out: "skeleton (write_out as us s) = skeleton s"
  by (induction as us s rule: write_out.induct) simp_all

lemma skeleton_Function_pullback: "skeleton (snd (Function_pullback alg F s)) = skeleton s"
  by (auto simp: Function_pullback_def skeleton_write_out
           split: option.splits sum.splits pyval.splits list.splits prod.splits)

lemma skeleton_pullback_all: "skeleton (snd (pullback_all alg fs s)) = skeleton s"
proof (induction fs arbitrary: s)
  case Nil
  show ?case by simp
next
  case (Cons f fs)
  obtain e s' where p: "Function_pullback alg f s = (e, s')"
    by (cases "Function_pullback alg f s")
  have "skeleton s' = skeleton s"
    using skeleton_Function_pullback [of alg f s] p by simp
  then show ?case
    using p Cons.IH [of s'] by (cases e) simp_all
qed

lemma skeleton_CGraph_push_forward:
  "skeleton (snd (CGraph_push_forward alg x_list s)) = skeleton s"
proof -
  obtain e s' where p:
    "populate_independent 0 (independentFunctionList (cgraph s)) x_list s = (e, s')"
    by (cases "populate_independent 0 (independentFunctionList (cgraph s)) x_list s")
  have "skeleton s' = skeleton s"
    using skeleton_populate_independent [of 0 "independentFunctionList (cgraph s)" x_list s] p
    by simp
  then show ?thesis
    using p skeleton_traverse [of alg "functionList (cgraph s')" s']
    by (cases e) (simp_all add: CGraph_push_forward_def)
qed

lemma skeleton_CGraph_pullback:
  "skeleton (snd (CGraph_pullback alg xbar_list s)) = skeleton s"
proof (cases "dependentFunctionList (cgraph s) = []")
  case True
  then show ?thesis by (simp add: CGraph_pullback_def)
next
  case False
  obtain e1 s1 where p1: "init_xbar alg (functionList (cgraph s)) s = (e1, s1)"
    by (cases "init_xbar alg (functionList (cgraph s)) s")
  obtain e2 s2 where p2:
    "seed_xbar alg 0 (dependentFunctionList (cgraph s1)) xbar_list s1 = (e2, s2)"
    by (cases "seed_xbar alg 0 (dependentFunctionList (cgraph s1)) xbar_list s1")
  have k1: "skeleton s1 = skeleton s"
    using skeleton_init_xbar [of alg "functionList (cgraph s)" s] p1 by simp
  have k2: "skeleton s2 = skeleton s1"
    using skeleton_seed_xbar [of alg 0 "dependentFunctionList (cgraph s1)" xbar_list s1] p2
    by simp
  have k3: "skeleton (snd (pullback_all alg (rev (functionList (cgraph s2))) s2)) = skeleton s2"
    by (rule skeleton_pullback_all)
  show ?thesis
    using False p1 p2 k1 k2 k3
    by (cases e1; cases e2) (simp_all add: CGraph_pullback_def)
qed

text \<open>
  C6. \<open>CGraph.push_forward\<close> and \<open>CGraph.pullback\<close>, whether they return or
  raise, leave the structure of the state as it was: the node list (length,
  order, members), the node count, the two declared lists, and the operation,
  arguments, auxiliary arguments and \<open>ID\<close> of every node; also the binding of
  \<open>Function.cgraph\<close> and the earlier graphs.
\<close>

theorem replay_keeps_structure:
  "skeleton (snd (CGraph_push_forward alg x_list s)) = skeleton s
   \<and> skeleton (snd (CGraph_pullback alg xbar_list s)) = skeleton s"
  by (simp add: skeleton_CGraph_push_forward skeleton_CGraph_pullback)

text \<open>
  C3. \<open>CGraph.pullback\<close> on a graph without dependent nodes raises the
  exception that says so and leaves the state as it was: no adjoint has been
  initialised and nothing has been accumulated.
\<close>

theorem pullback_without_dependent_raises:
  assumes "dependentFunctionList (cgraph s) = []"
  shows "CGraph_pullback alg xbar_list s = (Some (Exception no_dependent_msg), s)"
  using assms by (simp add: CGraph_pullback_def)

theorem pullback_without_dependent_raises_witness:
  "dependentFunctionList (cgraph ex_two_leaves) = []
   \<and> CGraph_pullback ex_alg [PyObj 1] ex_two_leaves
       = (Some (Exception no_dependent_msg), ex_two_leaves)"
proof -
  have d: "dependentFunctionList (cgraph ex_two_leaves) = []"
    by (simp add: ex_two_leaves_def session_defs)
  show ?thesis
    using pullback_without_dependent_raises [OF d, of ex_alg "[PyObj 1]"] d by simp
qed

subsection \<open>The number of input values\<close>

lemma populate_independent_take:
  fixes s :: "('f, 'a) state"
  shows "nf + length fs \<le> length x_list \<Longrightarrow>
     populate_independent nf fs x_list s
       = populate_independent nf fs (take (nf + length fs) x_list) s"
proof (induction fs arbitrary: nf s)
  case Nil
  show ?case by simp
next
  case (Cons f fs)
  have "populate_independent (Suc nf) fs x_list t
          = populate_independent (Suc nf) fs (take (Suc nf + length fs) x_list) t"
    for t :: "('f, 'a) state"
    by (rule Cons.IH) (use Cons.prems in simp)
  then show ?case
    using Cons.prems by (simp split: option.splits list.splits)
qed

lemma populate_independent_short:
  fixes s :: "('f, 'a) state"
  shows "nf \<le> length x_list \<Longrightarrow> length x_list < nf + length fs \<Longrightarrow>
     populate_independent nf fs x_list s
       = (case populate_independent nf (take (length x_list - nf) fs) x_list s of
            (None, s') \<Rightarrow> (Some IndexError, s')
          | (Some e, s') \<Rightarrow> (Some e, s'))"
proof (induction fs arbitrary: nf s)
  case Nil
  then show ?case by simp
next
  case (Cons f fs)
  show ?case
  proof (cases "length x_list = nf")
    case True
    then show ?thesis by simp
  next
    case False
    with Cons.prems have lt: "nf < length x_list" by simp
    then have "length x_list - nf = Suc (length x_list - Suc nf)"
      by simp
    then have tk: "take (length x_list - nf) (f # fs) = f # take (length x_list - Suc nf) fs"
      by simp
    have ih: "populate_independent (Suc nf) fs x_list t
         = (case populate_independent (Suc nf) (take (length x_list - Suc nf) fs) x_list t of
              (None, s') \<Rightarrow> (Some IndexError, s')
            | (Some e, s') \<Rightarrow> (Some e, s'))"
      for t :: "('f, 'a) state"
      by (rule Cons.IH) (use Cons.prems lt in simp_all)
    show ?thesis
      unfolding tk using lt ih by (simp split: option.splits list.splits)
  qed
qed

text \<open>
  C4, as the code has it. At \<open>ex_two_leaves\<close>, a graph with two independent
  nodes, three values are accepted without an error, and one value raises
  IndexError only after the first node has taken the new value.
\<close>

theorem push_forward_count_counterexample:
  "length [PyObj 5, PyObj 6, PyObj 7 :: int pyval]
     \<noteq> length (independentFunctionList (cgraph ex_two_leaves))
   \<and> fst (CGraph_push_forward ex_alg [PyObj 5, PyObj 6, PyObj 7] ex_two_leaves) = None
   \<and> length [PyObj 5 :: int pyval] \<noteq> length (independentFunctionList (cgraph ex_two_leaves))
   \<and> fst (CGraph_push_forward ex_alg [PyObj 5] ex_two_leaves) = Some IndexError
   \<and> map_option f_x (node ex_two_leaves 0) = Some (PyObj 2)
   \<and> map_option f_x (node (snd (CGraph_push_forward ex_alg [PyObj 5] ex_two_leaves)) 0)
       = Some (PyObj 5)"
  by (simp add: ex_two_leaves_def session_defs CGraph_push_forward_def)

text \<open>
  C4, amended. \<open>CGraph.push_forward\<close> does not compare the two numbers. Given
  at least as many values as there are independent nodes it does what it does
  on the leading values alone, one per node. Given fewer, it assigns the values
  it has to the leading independent nodes and then raises IndexError (unless
  one of these assignments has raised before), without starting the replay.
\<close>

theorem push_forward_count_unchecked:
  "(length (independentFunctionList (cgraph s)) \<le> length x_list \<longrightarrow>
      CGraph_push_forward alg x_list s
        = CGraph_push_forward alg
            (take (length (independentFunctionList (cgraph s))) x_list) s)
   \<and> (length x_list < length (independentFunctionList (cgraph s)) \<longrightarrow>
      CGraph_push_forward alg x_list s
        = (case populate_independent 0
                  (take (length x_list) (independentFunctionList (cgraph s))) x_list s of
             (None, s') \<Rightarrow> (Some IndexError, s')
           | (Some e, s') \<Rightarrow> (Some e, s')))"
proof (intro conjI impI)
  assume "length (independentFunctionList (cgraph s)) \<le> length x_list"
  then show "CGraph_push_forward alg x_list s
        = CGraph_push_forward alg
            (take (length (independentFunctionList (cgraph s))) x_list) s"
    using populate_independent_take [of 0 "independentFunctionList (cgraph s)" x_list s]
    by (simp add: CGraph_push_forward_def)
next
  assume "length x_list < length (independentFunctionList (cgraph s))"
  then show "CGraph_push_forward alg x_list s
        = (case populate_independent 0
                  (take (length x_list) (independentFunctionList (cgraph s))) x_list s of
             (None, s') \<Rightarrow> (Some IndexError, s')
           | (Some e, s') \<Rightarrow> (Some e, s'))"
    using populate_independent_short [of 0 x_list "independentFunctionList (cgraph s)" s]
    by (simp add: CGraph_push_forward_def split: prod.splits option.splits)
qed

theorem push_forward_count_unchecked_witness:
  "CGraph_push_forward ex_alg [PyObj 5, PyObj 6, PyObj 7] ex_two_leaves
     = CGraph_push_forward ex_alg [PyObj 5, PyObj 6] ex_two_leaves
   \<and> CGraph_push_forward ex_alg [PyObj 5] ex_two_leaves
     = (Some IndexError, set_x 0 (PyObj 5) ex_two_leaves)"
proof -
  have i: "independentFunctionList (cgraph ex_two_leaves) = [0, 1]"
    by (simp add: ex_two_leaves_def session_defs)
  have p: "populate_independent 0 [0] [PyObj 5] ex_two_leaves
             = (None, set_x 0 (PyObj 5) ex_two_leaves)"
    by (simp add: ex_two_leaves_def session_defs)
  have a: "length (independentFunctionList (cgraph ex_two_leaves))
             \<le> length [PyObj 5, PyObj 6, PyObj 7 :: int pyval]"
    by (simp add: i)
  have b: "length [PyObj 5 :: int pyval]
             < length (independentFunctionList (cgraph ex_two_leaves))"
    by (simp add: i)
  have t: "take (length [PyObj 5 :: int pyval]) (independentFunctionList (cgraph ex_two_leaves))
             = [0]"
    by (simp add: i)
  from push_forward_count_unchecked [of ex_two_leaves "[PyObj 5, PyObj 6, PyObj 7]" ex_alg] a
  have 1: "CGraph_push_forward ex_alg [PyObj 5, PyObj 6, PyObj 7] ex_two_leaves
        = CGraph_push_forward ex_alg
            (take (length (independentFunctionList (cgraph ex_two_leaves)))
               [PyObj 5, PyObj 6, PyObj 7]) ex_two_leaves"
    by blast
  from push_forward_count_unchecked [of ex_two_leaves "[PyObj 5]" ex_alg] b
  have 2: "CGraph_push_forward ex_alg [PyObj 5] ex_two_leaves
        = (case populate_independent 0
                  (take (length [PyObj 5 :: int pyval])
                     (independentFunctionList (cgraph ex_two_leaves)))
                  [PyObj 5] ex_two_leaves of
             (None, s') \<Rightarrow> (Some IndexError, s')
           | (Some e, s') \<Rightarrow> (Some e, s'))"
    by blast
  show ?thesis
    using 1 2 unfolding t p by (simp add: i)
qed

subsection \<open>Zero initialisation\<close>

lemma zero_element_iff: "zero_element alg xi zi \<longleftrightarrow> py_zeros_like alg xi = Inr zi"
  by (cases xi) (simp_all add: zero_element_def py_zeros_like_def)

lemma zeros_like_list_py:
  "zeros_like_list alg xs = Inr zs \<longleftrightarrow>
     list_all2 (\<lambda>xi zi. py_zeros_like alg xi = Inr zi) xs zs"
proof (induction xs arbitrary: zs)
  case Nil
  show ?case by auto
next
  case (Cons xi xs)
  show ?case
    by (cases "py_zeros_like alg xi"; cases "zeros_like_list alg xs")
      (auto simp: list_all2_Cons1 Cons.IH [symmetric])
qed

lemma zeros_like_list_Inr:
  "zeros_like_list alg xs = Inr zs \<longleftrightarrow> list_all2 (zero_element alg) xs zs"
proof -
  have "zero_element alg = (\<lambda>xi zi. py_zeros_like alg xi = Inr zi)"
    by (intro ext) (simp add: zero_element_iff)
  then show ?thesis by (simp add: zeros_like_list_py)
qed

lemma zeros_like_list_returns:
  "returns (zeros_like_list alg xs) \<longleftrightarrow>
     list_all (\<lambda>xi. case xi of PyObj a \<Rightarrow> returns (zeros_like alg a) | _ \<Rightarrow> False) xs"
proof (induction xs)
  case Nil
  show ?case by (simp add: returns_def)
next
  case (Cons xi xs)
  show ?case
  proof (cases xi)
    case (PyObj a)
    then show ?thesis
      using Cons.IH
      by (cases "zeros_like alg a"; cases "zeros_like_list alg xs")
        (simp_all add: returns_def py_zeros_like_def)
  qed (simp_all add: returns_def py_zeros_like_def)
qed

text \<open>
  What \<open>xbar_from_x\<close> does on a node: it returns exactly when the value has a
  zero, and then the node holds that zero as its adjoint; when it raises, the
  state is as it was.
\<close>

lemma xbar_from_x_cases:
  assumes "node s f = Some F"
  shows "(\<exists>z. has_zero alg (f_x F) \<and> zero_shaped alg (f_x F) z
              \<and> xbar_from_x alg f s = (None, set_xbar f z s))
       \<or> (\<exists>e. \<not> has_zero alg (f_x F) \<and> xbar_from_x alg f s = (Some e, s))"
proof (cases "f_x F")
  case PyNone
  then have "xbar_from_x alg f s = (Some AttributeError, s)"
    using assms by (simp add: xbar_from_x_def numpy_isscalar_def py_zeros_like_def)
  then show ?thesis using PyNone by simp
next
  case NotSet
  then have "xbar_from_x alg f s = (Some AttributeError, s)"
    using assms by (simp add: xbar_from_x_def numpy_isscalar_def py_zeros_like_def)
  then show ?thesis using NotSet by simp
next
  case (PyInt i)
  then have "xbar_from_x alg f s = (None, set_xbar f (PyFloat 0) s)"
    using assms by (simp add: xbar_from_x_def numpy_isscalar_def)
  then show ?thesis
    using PyInt by (intro disjI1 exI [of _ "PyFloat 0"]) simp
next
  case (PyFloat q)
  then have "xbar_from_x alg f s = (None, set_xbar f (PyFloat 0) s)"
    using assms by (simp add: xbar_from_x_def numpy_isscalar_def)
  then show ?thesis
    using PyFloat by (intro disjI1 exI [of _ "PyFloat 0"]) simp
next
  case (PyStr t)
  then have "xbar_from_x alg f s = (None, set_xbar f (PyFloat 0) s)"
    using assms by (simp add: xbar_from_x_def numpy_isscalar_def)
  then show ?thesis
    using PyStr by (intro disjI1 exI [of _ "PyFloat 0"]) simp
next
  case (PyTuple xs)
  show ?thesis
  proof (cases "zeros_like_list alg xs")
    case (Inl e)
    then have "\<not> returns (zeros_like_list alg xs)"
      by (simp add: returns_def)
    then have "\<not> has_zero alg (f_x F)"
      using PyTuple by (simp add: zeros_like_list_returns)
    moreover have "xbar_from_x alg f s = (Some e, s)"
      using assms PyTuple Inl by (simp add: xbar_from_x_def numpy_isscalar_def)
    ultimately show ?thesis by blast
  next
    case (Inr zs)
    then have "returns (zeros_like_list alg xs)"
      by (simp add: returns_def)
    then have "has_zero alg (f_x F)"
      using PyTuple by (simp add: zeros_like_list_returns)
    moreover have "zero_shaped alg (f_x F) (PyTuple zs)"
      using PyTuple Inr by (simp add: zeros_like_list_Inr)
    moreover have "xbar_from_x alg f s = (None, set_xbar f (PyTuple zs) s)"
      using assms PyTuple Inr by (simp add: xbar_from_x_def numpy_isscalar_def)
    ultimately show ?thesis by blast
  qed
next
  case (PyObj a)
  show ?thesis
  proof (cases "zeros_like alg a")
    case (Inl e)
    then have "\<not> has_zero alg (f_x F)"
      using PyObj by (simp add: returns_def)
    moreover have "xbar_from_x alg f s = (Some e, s)"
      using assms PyObj Inl
      by (simp add: xbar_from_x_def numpy_isscalar_def py_zeros_like_def)
    ultimately show ?thesis by blast
  next
    case (Inr z)
    then have "has_zero alg (f_x F)" and "zero_shaped alg (f_x F) z"
      using PyObj by (simp_all add: returns_def)
    moreover have "xbar_from_x alg f s = (None, set_xbar f z s)"
      using assms PyObj Inr
      by (simp add: xbar_from_x_def numpy_isscalar_def py_zeros_like_def)
    ultimately show ?thesis by blast
  qed
qed

lemma xbar_from_x_node:
  assumes "xbar_from_x alg f s = (None, s')"
  shows "zero_adjoint alg s' f"
    and "q \<noteq> f \<Longrightarrow> node s' q = node s q"
    and "map_option f_x (node s' q) = map_option f_x (node s q)"
proof -
  obtain F where F: "node s f = Some F"
    using assms by (auto simp: xbar_from_x_def split: option.splits)
  obtain z where z: "zero_shaped alg (f_x F) z" and s': "s' = set_xbar f z s"
    using xbar_from_x_cases [OF F, of alg] assms by auto
  show "zero_adjoint alg s' f"
    using F z by (simp add: zero_adjoint_def s' node_set_xbar)
  show "q \<noteq> f \<Longrightarrow> node s' q = node s q"
    by (simp add: s' node_set_xbar)
  show "map_option f_x (node s' q) = map_option f_x (node s q)"
    by (simp add: s' node_set_xbar option.map_comp comp_def)
qed

lemma xbar_from_x_keeps_zero:
  assumes "xbar_from_x alg f s = (None, s')" and "zero_adjoint alg s r"
  shows "zero_adjoint alg s' r"
proof (cases "r = f")
  case True
  then show ?thesis using xbar_from_x_node(1) [OF assms(1)] by simp
next
  case False
  then show ?thesis
    using xbar_from_x_node(2) [OF assms(1), of r] assms(2) by (simp add: zero_adjoint_def)
qed

lemma init_xbar_keeps_zero:
  "init_xbar alg fs s = (None, s') \<Longrightarrow> zero_adjoint alg s r \<Longrightarrow> zero_adjoint alg s' r"
proof (induction fs arbitrary: s)
  case Nil
  then show ?case by simp
next
  case (Cons f fs)
  obtain e s1 where p: "xbar_from_x alg f s = (e, s1)"
    by (cases "xbar_from_x alg f s")
  with Cons.prems(1) have e: "e = None" and i: "init_xbar alg fs s1 = (None, s')"
    by (auto split: option.splits)
  have "zero_adjoint alg s1 r"
    using xbar_from_x_keeps_zero [of alg f s s1 r] p e Cons.prems(2) by simp
  then show ?case
    using Cons.IH [OF i] by simp
qed

lemma init_xbar_zero:
  "init_xbar alg fs s = (None, s') \<Longrightarrow> r \<in> set fs \<Longrightarrow> zero_adjoint alg s' r"
proof (induction fs arbitrary: s)
  case Nil
  then show ?case by simp
next
  case (Cons f fs)
  obtain e s1 where p: "xbar_from_x alg f s = (e, s1)"
    by (cases "xbar_from_x alg f s")
  with Cons.prems(1) have e: "e = None" and i: "init_xbar alg fs s1 = (None, s')"
    by (auto split: option.splits)
  show ?case
  proof (cases "r \<in> set fs")
    case True
    then show ?thesis using Cons.IH [OF i] by simp
  next
    case False
    with Cons.prems(2) have "r = f" by simp
    then have "zero_adjoint alg s1 r"
      using xbar_from_x_node(1) [of alg f s s1] p e by simp
    then show ?thesis
      using init_xbar_keeps_zero [OF i] by simp
  qed
qed

lemma init_xbar_x:
  "init_xbar alg fs s = (e, s') \<Longrightarrow> map_option f_x (node s' q) = map_option f_x (node s q)"
proof (induction fs arbitrary: s)
  case Nil
  then show ?case by simp
next
  case (Cons f fs)
  obtain e1 s1 where p: "xbar_from_x alg f s = (e1, s1)"
    by (cases "xbar_from_x alg f s")
  show ?case
  proof (cases e1)
    case None
    then have "map_option f_x (node s1 q) = map_option f_x (node s q)"
      using xbar_from_x_node(3) [of alg f s s1 q] p by simp
    moreover have "init_xbar alg fs s1 = (e, s')"
      using Cons.prems p None by simp
    ultimately show ?thesis using Cons.IH [of s1] by simp
  next
    case (Some err)
    obtain F where "node s f = Some F \<or> s1 = s"
      using p by (cases "node s f") (auto simp: xbar_from_x_def)
    then have "s1 = s"
      using p Some xbar_from_x_cases [of s f _ alg] by auto
    then show ?thesis using Cons.prems p Some by simp
  qed
qed

lemma init_xbar_returns:
  "list_all (node_has_zero alg s) fs \<Longrightarrow> \<exists>s'. init_xbar alg fs s = (None, s')"
proof (induction fs arbitrary: s)
  case Nil
  show ?case by simp
next
  case (Cons f fs)
  from Cons.prems obtain F where F: "node s f = Some F" and h: "has_zero alg (f_x F)"
    by (auto simp: node_has_zero_def split: option.splits)
  obtain z where p: "xbar_from_x alg f s = (None, set_xbar f z s)"
    using xbar_from_x_cases [OF F, of alg] h by auto
  have "node_has_zero alg (set_xbar f z s) q = node_has_zero alg s q" for q
    by (auto simp: node_has_zero_def node_set_xbar split: option.splits)
  then have "list_all (node_has_zero alg (set_xbar f z s)) fs"
    using Cons.prems by (simp add: list_all_iff)
  then show ?case
    using Cons.IH [of "set_xbar f z s"] p by simp
qed

text \<open>
  C5. Let the dependent list not be empty. When every node of the graph holds
  a value that has a zero (a scalar; a tuple of objects whose \<open>zeros_like()\<close>
  returns; an object whose \<open>zeros_like()\<close> returns), the first loop of
  \<open>CGraph.pullback\<close> runs through. And whenever it runs through, the state
  \<open>s1\<close> in which the seeding starts has, at every node of the graph, the
  adjoint that is the additive identity shaped like the node's value: the float
  zero for a scalar, a tuple of the \<open>zeros_like()\<close> of the elements for a tuple,
  the value's \<open>zeros_like()\<close> otherwise. The values are untouched, and seeding
  and propagation go on from \<open>s1\<close>.
\<close>

theorem pullback_zero_initialises:
  assumes "dependentFunctionList (cgraph s) \<noteq> []"
  shows "(list_all (node_has_zero alg s) (functionList (cgraph s)) \<longrightarrow>
            (\<exists>s1. init_xbar alg (functionList (cgraph s)) s = (None, s1)))
       \<and> (\<forall>s1. init_xbar alg (functionList (cgraph s)) s = (None, s1) \<longrightarrow>
             list_all (zero_adjoint alg s1) (functionList (cgraph s))
             \<and> (\<forall>r. map_option f_x (node s1 r) = map_option f_x (node s r))
             \<and> CGraph_pullback alg xbar_list s
                 = (case seed_xbar alg 0 (dependentFunctionList (cgraph s)) xbar_list s1 of
                      (Some e, s2) \<Rightarrow> (Some e, s2)
                    | (None, s2) \<Rightarrow> pullback_all alg (rev (functionList (cgraph s))) s2))"
proof (intro conjI impI allI)
  assume "list_all (node_has_zero alg s) (functionList (cgraph s))"
  then show "\<exists>s1. init_xbar alg (functionList (cgraph s)) s = (None, s1)"
    by (rule init_xbar_returns)
next
  fix s1 assume i: "init_xbar alg (functionList (cgraph s)) s = (None, s1)"
  show "list_all (zero_adjoint alg s1) (functionList (cgraph s))"
    using init_xbar_zero [OF i] by (simp add: list_all_iff)
  show "map_option f_x (node s1 r) = map_option f_x (node s r)" for r
    using init_xbar_x [OF i] by simp
  have "skeleton s1 = skeleton s"
    using skeleton_init_xbar [of alg "functionList (cgraph s)" s] i by simp
  then have c1: "cgraph s1 = cgraph s"
    by (simp add: skeleton_eq_iff)
  obtain e2 s2 where p2:
    "seed_xbar alg 0 (dependentFunctionList (cgraph s)) xbar_list s1 = (e2, s2)"
    by (cases "seed_xbar alg 0 (dependentFunctionList (cgraph s)) xbar_list s1")
  have "skeleton s2 = skeleton s1"
    using skeleton_seed_xbar [of alg 0 "dependentFunctionList (cgraph s)" xbar_list s1] p2
    by simp
  then have c2: "cgraph s2 = cgraph s"
    using c1 by (simp add: skeleton_eq_iff)
  show "CGraph_pullback alg xbar_list s
           = (case seed_xbar alg 0 (dependentFunctionList (cgraph s)) xbar_list s1 of
                (Some e, s2) \<Rightarrow> (Some e, s2)
              | (None, s2) \<Rightarrow> pullback_all alg (rev (functionList (cgraph s))) s2)"
    using assms i c1 c2 p2 by (cases e2) (simp_all add: CGraph_pullback_def)
qed

text \<open>
  At \<open>ex_mixed_graph\<close> the three cases occur together: the node that holds a
  float gets the float zero, the node that holds a tuple of two objects a tuple
  of two zero objects, the node that holds an object a zero object.
\<close>

theorem pullback_zero_initialises_witness:
  "dependentFunctionList (cgraph ex_mixed_graph) \<noteq> []
   \<and> list_all (node_has_zero ex_alg ex_mixed_graph) (functionList (cgraph ex_mixed_graph))
   \<and> map (\<lambda>r. map_option f_x (node ex_mixed_graph r)) (functionList (cgraph ex_mixed_graph))
       = [Some (PyFloat 3), Some (PyTuple [PyObj 1, PyObj 2]), Some (PyObj 4)]
   \<and> (\<exists>s1. init_xbar ex_alg (functionList (cgraph ex_mixed_graph)) ex_mixed_graph = (None, s1)
         \<and> list_all (zero_adjoint ex_alg s1) (functionList (cgraph ex_mixed_graph))
         \<and> map (\<lambda>r. map_option f_xbar (node s1 r)) (functionList (cgraph ex_mixed_graph))
             = [Some (PyFloat 0), Some (PyTuple [PyObj 0, PyObj 0]), Some (PyObj 0)])"
proof -
  let ?fl = "functionList (cgraph ex_mixed_graph)"
  have d: "dependentFunctionList (cgraph ex_mixed_graph) \<noteq> []"
    by (simp add: ex_mixed_graph_def session_defs)
  have fl: "?fl = [0, 1, 2]"
    by (simp add: ex_mixed_graph_def session_defs)
  have x: "map (\<lambda>r. map_option f_x (node ex_mixed_graph r)) [0, 1, 2]
       = [Some (PyFloat 3), Some (PyTuple [PyObj 1, PyObj 2]), Some (PyObj 4)]"
    by (simp add: ex_mixed_graph_def session_defs)
  have h: "list_all (node_has_zero ex_alg ex_mixed_graph) ?fl"
    unfolding fl
    by (simp add: ex_mixed_graph_def session_defs node_has_zero_def returns_def)
  from pullback_zero_initialises [OF d, of ex_alg "[PyObj 1]"] h
  obtain s1 where i: "init_xbar ex_alg ?fl ex_mixed_graph = (None, s1)"
    by blast
  from pullback_zero_initialises [OF d, of ex_alg "[PyObj 1]"] i
  have z: "list_all (zero_adjoint ex_alg s1) ?fl"
    and same: "\<forall>r. map_option f_x (node s1 r) = map_option f_x (node ex_mixed_graph r)"
    by blast+
  have v: "map_option f_xbar (node s1 r) = Some zr"
    if r: "r \<in> set ?fl" and xr: "map_option f_x (node ex_mixed_graph r) = Some xr"
      and u: "\<And>w. zero_shaped ex_alg xr w \<Longrightarrow> w = zr" for r xr zr
  proof -
    have "zero_adjoint ex_alg s1 r"
      using z r by (simp add: list_all_iff)
    then obtain F where F: "node s1 r = Some F" and zs: "zero_shaped ex_alg (f_x F) (f_xbar F)"
      by (cases "node s1 r") (simp_all add: zero_adjoint_def)
    have "f_x F = xr"
      using same [rule_format, of r] F xr by simp
    then have "f_xbar F = zr"
      using zs u by simp
    then show ?thesis using F by simp
  qed
  have 0: "map_option f_xbar (node s1 0) = Some (PyFloat 0)"
    by (rule v [where xr = "PyFloat 3"]) (use x in \<open>simp_all add: fl\<close>)
  have 1: "map_option f_xbar (node s1 1) = Some (PyTuple [PyObj 0, PyObj 0])"
    by (rule v [where xr = "PyTuple [PyObj 1, PyObj 2]"])
      (use x in \<open>auto simp: fl list_all2_Cons1 zero_element_def ex_alg_def split: pyval.splits\<close>)
  have 2: "map_option f_xbar (node s1 2) = Some (PyObj 0)"
    by (rule v [where xr = "PyObj 4"]) (use x in \<open>auto simp: fl ex_alg_def\<close>)
  have "init_xbar ex_alg ?fl ex_mixed_graph = (None, s1)
         \<and> list_all (zero_adjoint ex_alg s1) ?fl
         \<and> map (\<lambda>r. map_option f_xbar (node s1 r)) [0, 1, 2]
             = [Some (PyFloat 0), Some (PyTuple [PyObj 0, PyObj 0]), Some (PyObj 0)]"
    using i z 0 1 2 by simp
  then have "\<exists>s1. init_xbar ex_alg ?fl ex_mixed_graph = (None, s1)
         \<and> list_all (zero_adjoint ex_alg s1) ?fl
         \<and> map (\<lambda>r. map_option f_xbar (node s1 r)) [0, 1, 2]
             = [Some (PyFloat 0), Some (PyTuple [PyObj 0, PyObj 0]), Some (PyObj 0)]"
    by (rule exI)
  then show ?thesis
    using d h x by (simp add: fl)
qed

subsection \<open>Recording a node\<close>

lemma node_Some_less: "node s r = Some F \<Longrightarrow> r < length (heap s)"
  by (auto simp: node_def split: if_splits)

lemma node_append:
  "node (s\<lparr>heap := heap s @ [N], cgraph := c\<rparr>) r
     = (if r = length (heap s) then N else node s r)"
  "node (s\<lparr>heap := heap s @ [N]\<rparr>) r = (if r = length (heap s) then N else node s r)"
  by (auto simp: node_def nth_append)

lemma node_heap: "heap s' = heap s \<Longrightarrow> node s' r = node s r"
  by (simp add: node_def)

lemma create_eq:
  "create x fargs func None funcargs s =
     (if bound s then
        (Inr (length (heap s)),
         s\<lparr>heap := heap s @ [Some \<lparr>f_x = x, f_args = fargs, f_func = func,
                                    f_ID = get_ID s, f_funcargs = funcargs,
                                    f_xbar = NotSet\<rparr>],
           cgraph := (cgraph s)\<lparr>functionCount := functionCount (cgraph s) + 1,
                                 functionList := functionList (cgraph s) @ [length (heap s)]\<rparr>\<rparr>)
      else
        (Inl AttributeError,
         s\<lparr>heap := heap s @ [Some \<lparr>f_x = x, f_args = fargs, f_func = func,
                                    f_ID = get_ID s, f_funcargs = funcargs,
                                    f_xbar = NotSet\<rparr>]\<rparr>))"
  by (simp add: create_def CGraph_append_def get_ID_def)

lemma Function_init_eq:
  "x \<noteq> PyNone \<Longrightarrow>
   Function_init x s =
     (if bound s then
        (Inr (length (heap s)),
         s\<lparr>heap := heap s @ [Some \<lparr>f_x = x, f_args = [length (heap s)], f_func = Id,
                                    f_ID = get_ID s, f_funcargs = [], f_xbar = NotSet\<rparr>],
           cgraph := (cgraph s)\<lparr>functionCount := functionCount (cgraph s) + 1,
                                 functionList := functionList (cgraph s) @ [length (heap s)]\<rparr>\<rparr>)
      else
        (Inl AttributeError,
         s\<lparr>heap := heap s @ [Some \<lparr>f_x = x, f_args = [length (heap s)], f_func = Id,
                                    f_ID = get_ID s, f_funcargs = [], f_xbar = NotSet\<rparr>]\<rparr>))"
  by (simp add: Function_init_def create_def CGraph_append_def get_ID_def Let_def)

lemma getattr_x_list_nodes:
  "getattr_x_list s as = Inr vs \<Longrightarrow> a \<in> set as \<Longrightarrow> node s a \<noteq> None"
  by (induction as arbitrary: vs) (auto split: option.splits sum.splits)

text \<open>
  A method of a graph changes neither the store's structure nor the node list
  and the count of any graph.
\<close>

lemma call_method_frame:
  "heap (call_method alg m s) = heap s \<or> skeleton (call_method alg m s) = skeleton s"
  "bound (call_method alg m s) = bound s"
  "earlier (call_method alg m s) = earlier s"
  "functionList (cgraph (call_method alg m s)) = functionList (cgraph s)"
  "functionCount (cgraph (call_method alg m s)) = functionCount (cgraph s)"
  "length (heap (call_method alg m s)) = length (heap s)"
  "map_option wiring (node (call_method alg m s) r) = map_option wiring (node s r)"
proof -
  have h: "skeleton (call_method alg m s) = skeleton s" if "\<exists>v. m = PushForward v \<or> m = Pullback v"
    using that by (auto simp: skeleton_CGraph_push_forward skeleton_CGraph_pullback)
  show "heap (call_method alg m s) = heap s \<or> skeleton (call_method alg m s) = skeleton s"
    using h by (cases m) auto
  show "bound (call_method alg m s) = bound s"
    using h by (cases m) (auto simp: skeleton_eq_iff)
  show "earlier (call_method alg m s) = earlier s"
    using h by (cases m) (auto simp: skeleton_eq_iff)
  show "functionList (cgraph (call_method alg m s)) = functionList (cgraph s)"
    using h by (cases m) (auto simp: skeleton_eq_iff)
  show "functionCount (cgraph (call_method alg m s)) = functionCount (cgraph s)"
    using h by (cases m) (auto simp: skeleton_eq_iff)
  show "length (heap (call_method alg m s)) = length (heap s)"
    using h by (cases m) (auto simp: skeleton_eq_iff)
  show "map_option wiring (node (call_method alg m s) r) = map_option wiring (node s r)"
  proof (cases "\<exists>v. m = PushForward v \<or> m = Pullback v")
    case True
    then show ?thesis using h by (simp add: skeleton_eq_iff)
  next
    case False
    then have "heap (call_method alg m s) = heap s"
      by (cases m) auto
    then show ?thesis by (simp add: node_def)
  qed
qed

lemma on_graph_node:
  "map_option wiring (node (on_graph k (call_method alg m) s) r) = map_option wiring (node s r)"
proof -
  have "map_option wiring (node (call_method alg m (s\<lparr>cgraph := g\<rparr>)) r)
          = map_option wiring (node s r)" for g
    using call_method_frame(7) [of alg m "s\<lparr>cgraph := g\<rparr>" r] by (simp add: node_def)
  moreover have "node (t\<lparr>cgraph := c, earlier := e\<rparr>) r = node t r" for t :: "('a, 'b) state" and c e
    by (simp add: node_def)
  ultimately show ?thesis
    using call_method_frame(7) [of alg m s r] by (simp add: on_graph_def as_self_def)
qed

text \<open>A command leaves the structural fields of the nodes that exist as they are.\<close>

lemma exec_node_wiring:
  assumes "node s r = Some F"
  shows "map_option wiring (node (exec alg s c) r) = Some (wiring F)"
proof (cases c)
  case NewCGraph
  have "node (CGraph_init s) r = node s r"
    by (simp add: CGraph_init_def node_def)
  then show ?thesis using assms NewCGraph by simp
next
  case (NewFunction x)
  have "r \<noteq> length (heap s)"
    using node_Some_less [OF assms] by simp
  then show ?thesis
    using assms NewFunction
    by (cases "x = PyNone")
      (simp_all add: Function_init_eq node_append, simp add: Function_init_def node_append)
next
  case (Apply func Fargs funcargs)
  have "r \<noteq> length (heap s)"
    using node_Some_less [OF assms] by simp
  then show ?thesis
    using assms Apply
    by (auto simp: Function_push_forward_def create_eq node_append split: sum.splits)
next
  case (Call k m)
  then show ?thesis using assms on_graph_node [of k alg m s r] by simp
qed

lemma foldl_exec_node_wiring:
  "node s r = Some F \<Longrightarrow> map_option wiring (node (foldl (exec alg) s cs) r) = Some (wiring F)"
proof (induction cs arbitrary: s F)
  case Nil
  then show ?case by simp
next
  case (Cons c cs)
  obtain F' where F': "node (exec alg s c) r = Some F'" and w: "wiring F' = wiring F"
    using exec_node_wiring [OF Cons.prems, of alg c] by auto
  show ?case
    using Cons.IH [OF F'] w by simp
qed

subsection \<open>The invariant of a session\<close>

lemma well_placed_wiring:
  "wiring F' = wiring F \<Longrightarrow> well_placed F' f pre fs = well_placed F f pre fs"
  by (simp add: wiring_def well_placed_def)

lemma wired_cong:
  "(\<And>r. r \<in> set fs \<Longrightarrow> map_option wiring (node s' r) = map_option wiring (node s r))
     \<Longrightarrow> wired s' pre fs = wired s pre fs"
proof (induction fs arbitrary: pre)
  case Nil
  show ?case by simp
next
  case (Cons f fs)
  have h: "map_option wiring (node s' f) = map_option wiring (node s f)"
    using Cons.prems by simp
  have "(case node s' f of None \<Rightarrow> False | Some F \<Rightarrow> well_placed F f pre fs)
      = (case node s f of None \<Rightarrow> False | Some F \<Rightarrow> well_placed F f pre fs)"
  proof (cases "node s f")
    case None
    then show ?thesis using h by simp
  next
    case (Some F)
    then obtain F' where F': "node s' f = Some F'" and w: "wiring F' = wiring F"
      using h by auto
    show ?thesis
      using Some F' well_placed_wiring [OF w] by simp
  qed
  moreover have "wired s' (pre @ [f]) fs = wired s (pre @ [f]) fs"
    by (rule Cons.IH) (use Cons.prems in simp)
  ultimately show ?case by simp
qed

lemma wired_nodes: "wired s pre fs \<Longrightarrow> r \<in> set fs \<Longrightarrow> node s r \<noteq> None"
  by (induction fs arbitrary: pre) (auto split: option.splits)

lemma wired_snoc:
  assumes "wired s pre fs"
    and "\<And>f F. f \<in> set fs \<Longrightarrow> node s f = Some F \<Longrightarrow> n \<notin> set (f_args F)"
    and "node s n = Some N" and "well_placed N n (pre @ fs) []"
  shows "wired s pre (fs @ [n])"
  using assms
proof (induction fs arbitrary: pre)
  case Nil
  then show ?case by simp
next
  case (Cons f fs)
  obtain F where F: "node s f = Some F" and wp: "well_placed F f pre fs"
    and rest: "wired s (pre @ [f]) fs"
    using Cons.prems(1) by (auto split: option.splits)
  have "n \<notin> set (f_args F)"
    using Cons.prems(2) [of f F] F by simp
  then have "well_placed F f pre (fs @ [n])"
    using wp by (auto simp: well_placed_def)
  moreover have "wired s (pre @ [f]) (fs @ [n])"
  proof (rule Cons.IH [OF rest])
    fix g G assume "g \<in> set fs" and "node s g = Some G"
    then show "n \<notin> set (f_args G)"
      using Cons.prems(2) [of g G] by simp
  next
    show "node s n = Some N" by fact
  next
    show "well_placed N n ((pre @ [f]) @ fs) []"
      using Cons.prems(4) by simp
  qed
  ultimately show ?case using F by simp
qed

lemma graph_inv_cong:
  assumes "\<And>r. map_option wiring (node s' r) = map_option wiring (node s r)"
    and "functionList g' = functionList g" and "functionCount g' = functionCount g"
  shows "graph_inv s' g' = graph_inv s g"
proof -
  have "wired s' [] (functionList g) = wired s [] (functionList g)"
    by (rule wired_cong) (use assms(1) in simp)
  then show ?thesis using assms(2,3) by (simp add: graph_inv_def)
qed

lemma graph_inv_empty: "functionList g = [] \<Longrightarrow> functionCount g = 0 \<Longrightarrow> graph_inv s g"
  by (simp add: graph_inv_def)

lemma inv_transfer:
  assumes "session_inv s"
    and w: "\<And>r. map_option wiring (node s' r) = map_option wiring (node s r)"
    and g: "\<And>g'. g' \<in> set (cgraph s' # earlier s') \<Longrightarrow>
              (functionList g' = [] \<and> functionCount g' = 0)
              \<or> (\<exists>g\<in>set (cgraph s # earlier s).
                    functionList g' = functionList g \<and> functionCount g' = functionCount g)"
  shows "session_inv s'"
proof -
  have nodes: "node s' r \<noteq> None \<longleftrightarrow> node s r \<noteq> None" for r
    using w [of r] by (cases "node s r"; cases "node s' r") simp_all
  have "node s' a \<noteq> None" if n': "node s' r = Some F'" and a: "a \<in> set (f_args F')" for r F' a
  proof -
    obtain F where F: "node s r = Some F" and "wiring F' = wiring F"
      using w [of r] n' by (cases "node s r") auto
    then have "a \<in> set (f_args F)"
      using a by (simp add: wiring_def)
    then have "node s a \<noteq> None"
      using assms(1) F by (auto simp: session_inv_def)
    then show ?thesis using nodes by simp
  qed
  moreover have "graph_inv s' g'" if "g' \<in> set (cgraph s' # earlier s')" for g'
  proof -
    from g [OF that] show ?thesis
    proof
      assume "functionList g' = [] \<and> functionCount g' = 0"
      then show ?thesis by (simp add: graph_inv_empty)
    next
      assume "\<exists>g\<in>set (cgraph s # earlier s).
                functionList g' = functionList g \<and> functionCount g' = functionCount g"
      then obtain g0 where g0: "g0 \<in> set (cgraph s # earlier s)"
        and l: "functionList g' = functionList g0" "functionCount g' = functionCount g0"
        by blast
      have "graph_inv s g0"
        using assms(1) g0 by (auto simp: session_inv_def)
      then show ?thesis
        using graph_inv_cong [of s' s g' g0] w l by simp
    qed
  qed
  ultimately show ?thesis
    by (auto simp: session_inv_def)
qed

text \<open>
  Recording the new node \<open>N\<close>, a leaf or a node whose arguments exist, keeps the
  invariant: with a graph, where the node is appended to its list, and without
  one, where it only enters the store.
\<close>

lemma inv_record:
  assumes inv: "session_inv s"
    and id: "f_ID N = get_ID s"
    and args: "(f_args N = [length (heap s)] \<and> f_func N = Id \<and> f_funcargs N = [])
         \<or> (\<forall>a\<in>set (f_args N). node s a \<noteq> None)"
  shows "bound s \<Longrightarrow>
         session_inv (s\<lparr>heap := heap s @ [Some N],
               cgraph := (cgraph s)\<lparr>functionCount := functionCount (cgraph s) + 1,
                                     functionList := functionList (cgraph s) @ [length (heap s)]\<rparr>\<rparr>)"
    and "session_inv (s\<lparr>heap := heap s @ [Some N]\<rparr>)"
proof -
  let ?n = "length (heap s)"
  let ?fl = "functionList (cgraph s)"
  have less: "a < ?n" if "node s a \<noteq> None" for a
    using that by (simp add: node_def split: if_splits)
  have old_args: "a < ?n" if "node s r = Some F" and "a \<in> set (f_args F)" for r F a
    using inv that less by (auto simp: session_inv_def)
  have new_args: "a = ?n \<or> a < ?n" if "a \<in> set (f_args N)" for a
    using args that less by auto
  have heap_ok: "node t a \<noteq> None"
    if t: "\<And>q. node t q = (if q = ?n then Some N else node s q)"
      and "node t r = Some F" and "a \<in> set (f_args F)" for t :: "('a, 'b) state" and r F a
  proof (cases "r = ?n")
    case True
    then have "F = N" using t [of r] that(2) by simp
    then show ?thesis
      using args that(3) t [of a] by auto
  next
    case False
    then have "node s r = Some F" using t [of r] that(2) by simp
    then have "node s a \<noteq> None"
      using inv that(3) by (auto simp: session_inv_def)
    then show ?thesis using t [of a] by simp
  qed
  have keep: "graph_inv t g = graph_inv s g"
    if t: "\<And>q. node t q = (if q = ?n then Some N else node s q)"
      and "graph_inv s g" for t :: "('a, 'b) state" and g
  proof -
    have "wired t [] (functionList g) = wired s [] (functionList g)"
    proof (rule wired_cong)
      fix r assume "r \<in> set (functionList g)"
      then have "node s r \<noteq> None"
        using that(2) wired_nodes [of s "[]" "functionList g" r] by (simp add: graph_inv_def)
      then have "r \<noteq> ?n" using less by auto
      then show "map_option wiring (node t r) = map_option wiring (node s r)"
        by (simp add: t)
    qed
    then show ?thesis by (simp add: graph_inv_def)
  qed
  have graphs: "graph_inv s g" if "g \<in> set (cgraph s # earlier s)" for g
    using inv that by (auto simp: session_inv_def)
  show "session_inv (s\<lparr>heap := heap s @ [Some N]\<rparr>)" (is "session_inv ?u")
  proof -
    have u: "node ?u q = (if q = ?n then Some N else node s q)" for q
      by (simp add: node_append)
    have "graph_inv ?u g" if "g \<in> set (cgraph s # earlier s)" for g
      using keep [of ?u g] u graphs [OF that] by simp
    moreover have "node ?u a \<noteq> None" if "node ?u r = Some F" "a \<in> set (f_args F)" for r F a
      using heap_ok [of ?u r F a] u that by simp
    ultimately show ?thesis
      by (auto simp: session_inv_def)
  qed
  show "session_inv (s\<lparr>heap := heap s @ [Some N],
               cgraph := (cgraph s)\<lparr>functionCount := functionCount (cgraph s) + 1,
                                     functionList := ?fl @ [?n]\<rparr>\<rparr>)" (is "session_inv ?t")
    if b: "bound s"
  proof -
    have t: "node ?t q = (if q = ?n then Some N else node s q)" for q
      by (simp add: node_append)
    have cur: "graph_inv s (cgraph s)"
      using graphs by simp
    then have cnt: "functionCount (cgraph s) = length ?fl" and w: "wired s [] ?fl"
      by (simp_all add: graph_inv_def)
    have fresh: "?n \<notin> set ?fl"
    proof
      assume "?n \<in> set ?fl"
      then have "node s ?n \<noteq> None" using wired_nodes [OF w] by simp
      then show False using less by auto
    qed
    have "wired ?t [] ?fl = wired s [] ?fl"
    proof (rule wired_cong)
      fix r assume "r \<in> set ?fl"
      with fresh have "r \<noteq> ?n" by auto
      then show "map_option wiring (node ?t r) = map_option wiring (node s r)"
        by (simp add: node_append)
    qed
    then have w': "wired ?t [] ?fl" using w by simp
    have "well_placed N ?n ([] @ ?fl) []"
    proof -
      have "?n \<notin> set (f_args N)" if "\<forall>a\<in>set (f_args N). node s a \<noteq> None"
        using that less by auto
      then show ?thesis
        using id b cnt fresh args by (auto simp: well_placed_def get_ID_def)
    qed
    moreover have "?n \<notin> set (f_args F)" if "f \<in> set ?fl" and "node ?t f = Some F" for f F
    proof -
      have "f \<noteq> ?n" using that(1) fresh by auto
      then have "node s f = Some F" using that(2) t [of f] by simp
      then show ?thesis using old_args [of f F ?n] by auto
    qed
    ultimately have "wired ?t [] (?fl @ [?n])"
      using wired_snoc [of ?t "[]" ?fl ?n N] w' t [of ?n] by simp
    then have new: "graph_inv ?t (cgraph ?t)"
      using cnt by (simp add: graph_inv_def)
    have "graph_inv ?t g" if "g \<in> set (earlier s)" for g
      using keep [of ?t g] t graphs [of g] that by simp
    moreover have "node ?t a \<noteq> None" if "node ?t r = Some F" "a \<in> set (f_args F)" for r F a
      using heap_ok [of ?t r F a] t that by simp
    ultimately show ?thesis
      using new by (auto simp: session_inv_def)
  qed
qed

lemma inv_start: "session_inv start"
  by (simp add: session_inv_def start_def empty_graph_def node_def graph_inv_def)

lemma inv_on_graph:
  assumes "session_inv s"
  shows "session_inv (on_graph k (call_method alg m) s)"
proof (rule inv_transfer [OF assms])
  show "map_option wiring (node (on_graph k (call_method alg m) s) r)
          = map_option wiring (node s r)" for r
    by (rule on_graph_node)
next
  fix g' assume g': "g' \<in> set (cgraph (on_graph k (call_method alg m) s)
                              # earlier (on_graph k (call_method alg m) s))"
  let ?same = "\<lambda>g' g. functionList g' = functionList g \<and> functionCount g' = functionCount g"
  have "\<exists>g\<in>set (cgraph s # earlier s). ?same g' g"
  proof (cases "bound s \<and> k < length (earlier s)")
    case True
    let ?s1 = "s\<lparr>cgraph := earlier s ! k\<rparr>"
    let ?s2 = "call_method alg m ?s1"
    have e: "earlier ?s2 = earlier s"
      using call_method_frame(3) [of alg m ?s1] by simp
    have c: "?same (cgraph ?s2) (earlier s ! k)"
      using call_method_frame(4,5) [of alg m ?s1] by simp
    have "g' = cgraph s \<or> g' \<in> set ((earlier s)[k := cgraph ?s2])"
      using g' True e by (simp add: on_graph_def as_self_def)
    then consider "g' = cgraph s" | "g' = cgraph ?s2" | "g' \<in> set (earlier s)"
      using set_update_subset_insert [of "earlier s" k "cgraph ?s2"] by auto
    then show ?thesis
    proof cases
      case 1
      then show ?thesis by simp
    next
      case 2
      have "earlier s ! k \<in> set (earlier s)" using True by simp
      then show ?thesis using 2 c by auto
    next
      case 3
      then show ?thesis by auto
    qed
  next
    case False
    then have "on_graph k (call_method alg m) s = s
             \<or> on_graph k (call_method alg m) s = call_method alg m s"
      by (auto simp: on_graph_def)
    then show ?thesis
    proof
      assume "on_graph k (call_method alg m) s = s"
      then show ?thesis using g' by auto
    next
      assume eq: "on_graph k (call_method alg m) s = call_method alg m s"
      have "g' = cgraph (call_method alg m s) \<or> g' \<in> set (earlier s)"
        using g' eq call_method_frame(3) [of alg m s] by simp
      then show ?thesis
        using call_method_frame(4,5) [of alg m s] by auto
    qed
  qed
  then show "(functionList g' = [] \<and> functionCount g' = 0)
           \<or> (\<exists>g\<in>set (cgraph s # earlier s). ?same g' g)"
    by blast
qed

lemma inv_exec:
  assumes "session_inv s"
  shows "session_inv (exec alg s c)"
proof (cases c)
  case NewCGraph
  have "session_inv (CGraph_init s)"
  proof (rule inv_transfer [OF assms])
    show "map_option wiring (node (CGraph_init s) r) = map_option wiring (node s r)" for r
      by (simp add: CGraph_init_def node_def)
  next
    fix g' assume "g' \<in> set (cgraph (CGraph_init s) # earlier (CGraph_init s))"
    then have "g' = empty_graph \<or> g' \<in> set (cgraph s # earlier s)"
      by (auto simp: CGraph_init_def split: if_splits)
    then show "(functionList g' = [] \<and> functionCount g' = 0)
           \<or> (\<exists>g\<in>set (cgraph s # earlier s).
                  functionList g' = functionList g \<and> functionCount g' = functionCount g)"
      by (auto simp: empty_graph_def)
  qed
  then show ?thesis using NewCGraph by simp
next
  case (NewFunction x)
  show ?thesis
  proof (cases "x = PyNone")
    case True
    have "node (s\<lparr>heap := heap s @ [None]\<rparr>) r = node s r" for r
      by (auto simp: node_def nth_append)
    then have "session_inv (s\<lparr>heap := heap s @ [None]\<rparr>)"
      by (intro inv_transfer [OF assms]) auto
    then show ?thesis using NewFunction True by (simp add: Function_init_def)
  next
    case False
    let ?L = "\<lparr>f_x = x, f_args = [length (heap s)], f_func = Id, f_ID = get_ID s,
               f_funcargs = [], f_xbar = NotSet\<rparr>"
    have a: "bound s \<Longrightarrow>
        session_inv (s\<lparr>heap := heap s @ [Some ?L],
               cgraph := (cgraph s)\<lparr>functionCount := functionCount (cgraph s) + 1,
                                     functionList := functionList (cgraph s) @ [length (heap s)]\<rparr>\<rparr>)"
      by (rule inv_record(1) [OF assms]) simp_all
    have b: "session_inv (s\<lparr>heap := heap s @ [Some ?L]\<rparr>)"
      by (rule inv_record(2) [OF assms]) simp_all
    show ?thesis
      using NewFunction Function_init_eq [OF False, of s] a b by (cases "bound s") simp_all
  qed
next
  case (Apply func Fargs funcargs)
  show ?thesis
  proof (cases "getattr_x_list s Fargs")
    case (Inl e)
    then show ?thesis using Apply assms by (simp add: Function_push_forward_def)
  next
    case (Inr vs)
    then have n: "\<forall>a\<in>set Fargs. node s a \<noteq> None"
      using getattr_x_list_nodes by blast
    show ?thesis
    proof (cases "call_func alg func (vs @ funcargs)")
      case (Inl e)
      then show ?thesis using Apply assms Inr by (simp add: Function_push_forward_def)
    next
      case (Inr out)
      let ?N = "\<lparr>f_x = out, f_args = Fargs, f_func = func, f_ID = get_ID s,
                 f_funcargs = funcargs, f_xbar = NotSet\<rparr>"
      have a: "bound s \<Longrightarrow>
          session_inv (s\<lparr>heap := heap s @ [Some ?N],
                 cgraph := (cgraph s)\<lparr>functionCount := functionCount (cgraph s) + 1,
                                       functionList := functionList (cgraph s) @ [length (heap s)]\<rparr>\<rparr>)"
        by (rule inv_record(1) [OF assms]) (use n in simp_all)
      have b: "session_inv (s\<lparr>heap := heap s @ [Some ?N]\<rparr>)"
        by (rule inv_record(2) [OF assms]) (use n in simp_all)
      have "exec alg s c = snd (create out Fargs func None funcargs s)"
        using Apply \<open>getattr_x_list s Fargs = Inr vs\<close> Inr
        by (simp add: Function_push_forward_def)
      then show ?thesis
        using a b by (cases "bound s") (simp_all add: create_eq)
    qed
  qed
next
  case (Call k m)
  then show ?thesis using inv_on_graph [OF assms] by simp
qed

lemma inv_foldl: "session_inv s \<Longrightarrow> session_inv (foldl (exec alg) s cs)"
  by (induction cs arbitrary: s) (simp_all add: inv_exec)

lemma inv_run: "session_inv (run alg cs)"
  by (simp add: run_def inv_foldl inv_start)

lemma inv_graphs: "g \<in> set (graphs (run alg cs)) \<Longrightarrow> graph_inv (run alg cs) g"
  using inv_run [of alg cs] by (auto simp: session_inv_def graphs_def split: if_splits)

subsection \<open>The order of the node list\<close>

lemma wired_topological:
  assumes "wired s pre fs"
    and "\<forall>a\<in>set pre. \<exists>A i. node s a = Some A \<and> f_ID A = Some i \<and> i < length pre"
    and "\<forall>r F. node s r = Some F \<longrightarrow> (\<forall>a\<in>set (f_args F). node s a \<noteq> None)"
    and "r \<in> set fs"
  shows "topological_at s (pre @ fs) r"
  using assms
proof (induction fs arbitrary: pre)
  case Nil
  then show ?case by simp
next
  case (Cons f fs)
  obtain F where F: "node s f = Some F" and wp: "well_placed F f pre fs"
    and rest: "wired s (pre @ [f]) fs"
    using Cons.prems(1) by (auto split: option.splits)
  have inv: "\<forall>a\<in>set (pre @ [f]). \<exists>A i. node s a = Some A \<and> f_ID A = Some i
                \<and> i < length (pre @ [f])"
  proof
    fix a assume "a \<in> set (pre @ [f])"
    then consider "a = f" | "a \<in> set pre" by auto
    then show "\<exists>A i. node s a = Some A \<and> f_ID A = Some i \<and> i < length (pre @ [f])"
    proof cases
      case 1
      then show ?thesis using F wp by (simp add: well_placed_def)
    next
      case 2
      then obtain A i where "node s a = Some A" "f_ID A = Some i" "i < length pre"
        using Cons.prems(2) by blast
      then show ?thesis by auto
    qed
  qed
  show ?case
  proof (cases "r = f")
    case True
    have "if a = f then f_func F = Id \<and> f_args F = [f]
          else (case node s a of
                  None \<Rightarrow> False
                | Some A \<Rightarrow> a \<in> set (pre @ f # fs) \<longrightarrow> ID_less A F)"
      if a: "a \<in> set (f_args F)" for a
    proof (cases "a = f")
      case True
      then show ?thesis using a wp by (auto simp: well_placed_def)
    next
      case False
      obtain A where A: "node s a = Some A"
        using Cons.prems(3) F a by fastforce
      have "ID_less A F" if "a \<in> set (pre @ f # fs)"
      proof -
        have "a \<in> set pre"
          using that False a wp by (auto simp: well_placed_def)
        then obtain i where "f_ID A = Some i" "i < length pre"
          using Cons.prems(2) A by fastforce
        then show ?thesis using wp by (simp add: ID_less_def well_placed_def)
      qed
      then show ?thesis using False A by simp
    qed
    then show ?thesis
      using True F by (simp add: topological_at_def list_all_iff)
  next
    case False
    with Cons.prems(4) have "r \<in> set fs" by simp
    then show ?thesis using Cons.IH [OF rest inv Cons.prems(3)] by simp
  qed
qed

text \<open>
  C2, as the specification words it, fails in two ways. In the graph of one
  leaf, the leaf is its own argument, with its own \<open>ID\<close>. And at
  \<open>ex_two_graphs\<close> the product recorded in the second graph has \<open>ID\<close> 0 there,
  while its arguments keep the \<open>ID\<close>s 0 and 1 they got in the first graph.
\<close>

theorem strict_topological_counterexample:
  "\<not> strict_topological (run ex_alg [NewCGraph, NewFunction (PyObj 2)])
   \<and> \<not> strict_topological ex_two_graphs
   \<and> map (\<lambda>r. map_option (\<lambda>F. (f_ID F, f_args F)) (node ex_two_graphs r)) [0, 1, 2]
       = [Some (Some 0, [0]), Some (Some 1, [1]), Some (Some 0, [0, 1])]
   \<and> map functionList (graphs ex_two_graphs) = [[0, 1], [2]]"
  by (simp add: strict_topological_def strict_topological_at_def ID_less_def graphs_def
        ex_two_graphs_def session_defs)

text \<open>
  C2, amended. In every state of a tracing session, whatever the commands were
  and however many graphs they made, in the node list of every graph: every
  argument of a node is a node; an argument that is in the same list and is
  not the node itself has a strictly smaller \<open>ID\<close>; and a node is its own
  argument only as a leaf, with \<open>Id\<close> as its operation and itself as its only
  argument. (An argument recorded in another graph keeps the \<open>ID\<close> it got
  there.)
\<close>

theorem session_topological: "topological (run alg cs)"
proof -
  let ?s = "run alg cs"
  have heap_ok: "\<forall>r F. node ?s r = Some F \<longrightarrow> (\<forall>a\<in>set (f_args F). node ?s a \<noteq> None)"
    using inv_run [of alg cs] by (simp add: session_inv_def)
  have "topological_graph ?s g" if g: "g \<in> set (graphs ?s)" for g
  proof -
    have w: "wired ?s [] (functionList g)"
      using inv_graphs [OF g] by (simp add: graph_inv_def)
    have "topological_at ?s ([] @ functionList g) r" if "r \<in> set (functionList g)" for r
      by (rule wired_topological [OF w _ heap_ok that]) simp
    then show ?thesis
      by (simp add: topological_graph_def list_all_iff)
  qed
  then show ?thesis
    by (simp add: topological_def list_all_iff)
qed

theorem session_topological_witness:
  "topological ex_graph
   \<and> map (\<lambda>r. map_option (\<lambda>F. (f_ID F, f_args F)) (node ex_graph r))
        (functionList (cgraph ex_graph))
     = [Some (Some 0, [0]), Some (Some 1, [1]), Some (Some 2, [2]),
        Some (Some 3, [1, 2]), Some (Some 4, [0, 3])]
   \<and> topological ex_two_graphs"
  using session_topological [of ex_alg ex_trace]
    session_topological
      [of ex_alg "[NewCGraph, NewFunction (PyObj 2), NewFunction (PyObj 3),
                   NewCGraph, Apply (Op mul) [0, 1] []]"]
  by (simp add: ex_graph_def ex_two_graphs_def) (simp add: ex_trace_def session_defs)

subsection \<open>Forward replay\<close>

lemma getattr_x_list_set_x:
  "f \<notin> set as \<Longrightarrow> getattr_x_list (set_x f v s) as = getattr_x_list s as"
  by (induction as) (auto simp: node_set_x split: option.splits)

lemma consistent_set_x_other:
  assumes "node s r = Some R" and "f \<noteq> r" and "f \<notin> set (f_args R)"
  shows "consistent alg (set_x f v s) r = consistent alg s r"
  using assms by (simp add: consistent_def node_set_x getattr_x_list_set_x)

lemma replay_node_cases:
  assumes "node s f = Some F"
  shows "(\<exists>e. Function_push_forward alg (f_func F) (f_args F) (Some f) (f_funcargs F) s
              = (Inl e, s))
       \<or> (\<exists>vs out. getattr_x_list s (f_args F) = Inr vs
              \<and> call_func alg (f_func F) (vs @ f_funcargs F) = Inr out
              \<and> Function_push_forward alg (f_func F) (f_args F) (Some f) (f_funcargs F) s
                  = (Inr f, set_x f out s))"
  using assms by (auto simp: Function_push_forward_def split: sum.splits)

lemma traverse_Cons_None:
  assumes "traverse alg (f # fs) s = (None, s')"
  obtains F vs out where "node s f = Some F"
    and "getattr_x_list s (f_args F) = Inr vs"
    and "call_func alg (f_func F) (vs @ f_funcargs F) = Inr out"
    and "traverse alg fs (set_x f out s) = (None, s')"
proof -
  obtain F where F: "node s f = Some F"
    using assms by (cases "node s f") auto
  from replay_node_cases [OF F, of alg] show thesis
  proof (elim disjE exE conjE)
    fix e
    assume "Function_push_forward alg (f_func F) (f_args F) (Some f) (f_funcargs F) s
              = (Inl e, s)"
    then show thesis using assms F by simp
  next
    fix vs out
    assume g: "getattr_x_list s (f_args F) = Inr vs"
      and c: "call_func alg (f_func F) (vs @ f_funcargs F) = Inr out"
      and p: "Function_push_forward alg (f_func F) (f_args F) (Some f) (f_funcargs F) s
                  = (Inr f, set_x f out s)"
    have "traverse alg fs (set_x f out s) = (None, s')"
      using assms F p by simp
    then show thesis using that F g c by blast
  qed
qed

lemma wired_disjoint: "wired s pre fs \<Longrightarrow> set pre \<inter> set fs = {}"
proof (induction fs arbitrary: pre)
  case Nil
  show ?case by simp
next
  case (Cons f fs)
  obtain F where "node s f = Some F" and wp: "well_placed F f pre fs"
    and rest: "wired s (pre @ [f]) fs"
    using Cons.prems by (auto split: option.splits)
  have "set (pre @ [f]) \<inter> set fs = {}"
    using Cons.IH [OF rest] .
  then show ?case using wp by (auto simp: well_placed_def)
qed

lemma traverse_consistent:
  assumes "wired s pre fs"
    and "\<forall>r\<in>set pre. \<exists>R. node s r = Some R \<and> set (f_args R) \<inter> set fs = {}"
    and "\<forall>r\<in>set pre. consistent alg s r"
    and "traverse alg fs s = (None, s')"
  shows "\<forall>r\<in>set (pre @ fs). consistent alg s' r"
  using assms
proof (induction fs arbitrary: pre s)
  case Nil
  then show ?case by simp
next
  case (Cons f fs)
  from Cons.prems(4) obtain F vs out where F: "node s f = Some F"
    and g: "getattr_x_list s (f_args F) = Inr vs"
    and c: "call_func alg (f_func F) (vs @ f_funcargs F) = Inr out"
    and t: "traverse alg fs (set_x f out s) = (None, s')"
    by (rule traverse_Cons_None)
  let ?s1 = "set_x f out s"
  have wp: "well_placed F f pre fs" and rest: "wired s (pre @ [f]) fs"
    using Cons.prems(1) F by simp_all
  have fpre: "f \<notin> set pre"
    using wp by (simp add: well_placed_def)
  have ffs: "f \<notin> set fs"
    using wired_disjoint [OF rest] by auto
  have w1: "wired ?s1 (pre @ [f]) fs"
    using rest wired_cong [of fs ?s1 s "pre @ [f]"]
    by (simp add: node_set_x option.map_comp comp_def)
  have n1: "node ?s1 f = Some (F\<lparr>f_x := out\<rparr>)"
    using F by (simp add: node_set_x)
  have o1: "node ?s1 r = node s r" if "r \<noteq> f" for r
    using that by (simp add: node_set_x)
  have inv1: "\<forall>r\<in>set (pre @ [f]). \<exists>R. node ?s1 r = Some R \<and> set (f_args R) \<inter> set fs = {}"
  proof
    fix r assume r: "r \<in> set (pre @ [f])"
    show "\<exists>R. node ?s1 r = Some R \<and> set (f_args R) \<inter> set fs = {}"
    proof (cases "r = f")
      case True
      then show ?thesis using n1 wp ffs by (auto simp: well_placed_def)
    next
      case False
      then have "r \<in> set pre" using r by simp
      then obtain R where "node s r = Some R" "set (f_args R) \<inter> set (f # fs) = {}"
        using Cons.prems(2) by blast
      then show ?thesis using o1 [OF False] by auto
    qed
  qed
  have con1: "\<forall>r\<in>set (pre @ [f]). consistent alg ?s1 r"
  proof
    fix r assume r: "r \<in> set (pre @ [f])"
    show "consistent alg ?s1 r"
    proof (cases "r = f")
      case False
      then have rp: "r \<in> set pre" using r by simp
      then obtain R where R: "node s r = Some R" and a: "set (f_args R) \<inter> set (f # fs) = {}"
        using Cons.prems(2) by blast
      have "f \<notin> set (f_args R)" using a by auto
      then have "consistent alg ?s1 r = consistent alg s r"
        using R False by (intro consistent_set_x_other) auto
      then show ?thesis using Cons.prems(3) rp by simp
    next
      case True
      show ?thesis
      proof (cases "f \<in> set (f_args F)")
        case False
        then have "getattr_x_list ?s1 (f_args F) = Inr vs"
          using g by (simp add: getattr_x_list_set_x)
        then show ?thesis
          using True n1 c by (simp add: consistent_def)
      next
        case True
        then have leaf: "f_args F = [f]" "f_func F = Id" "f_funcargs F = []"
          using wp by (auto simp: well_placed_def)
        have "vs = [f_x F]" using g F leaf by simp
        then have "out = f_x F" using c leaf by (simp add: call_func_def)
        then show ?thesis
          using \<open>r = f\<close> n1 leaf by (simp add: consistent_def call_func_def)
      qed
    qed
  qed
  show ?case
    using Cons.IH [OF w1 inv1 con1 t] by simp
qed

lemma populate_independent_keeps:
  fixes s :: "('f, 'a) state"
  shows "populate_independent nf fs x_list s = (e, s0) \<Longrightarrow> list_all (is_leaf s) fs
     \<Longrightarrow> r \<notin> set fs \<Longrightarrow> node s0 r = node s r"
proof (induction fs arbitrary: nf s)
  case Nil
  then show ?case by simp
next
  case (Cons f fs)
  from Cons.prems(2) obtain F where F: "node s f = Some F" and a: "f_args F = [f]"
    by (auto simp: is_leaf_def split: option.splits)
  show ?case
  proof (cases "length x_list \<le> nf")
    case True
    then show ?thesis using Cons.prems(1) by simp
  next
    case False
    let ?s1 = "set_x f (x_list ! nf) s"
    have p: "populate_independent (Suc nf) fs x_list ?s1 = (e, s0)"
      using Cons.prems(1) False F a by simp
    have "is_leaf ?s1 g = is_leaf s g" for g
      by (auto simp: is_leaf_def node_set_x split: option.splits)
    then have l: "list_all (is_leaf ?s1) fs"
      using Cons.prems(2) by (simp add: list_all_iff)
    have "node s0 r = node ?s1 r"
      using Cons.IH [OF p l] Cons.prems(3) by simp
    then show ?thesis using Cons.prems(3) by (simp add: node_set_x)
  qed
qed

lemma populate_independent_leaves:
  fixes s :: "('f, 'a) state"
  shows "populate_independent nf fs x_list s = (None, s0) \<Longrightarrow> list_all (is_leaf s) fs
     \<Longrightarrow> distinct fs
     \<Longrightarrow> map (\<lambda>r. map_option f_x (node s0 r)) fs = map Some (take (length fs) (drop nf x_list))"
proof (induction fs arbitrary: nf s)
  case Nil
  then show ?case by simp
next
  case (Cons f fs)
  from Cons.prems(2) obtain F where F: "node s f = Some F" and a: "f_args F = [f]"
    by (auto simp: is_leaf_def split: option.splits)
  have lt: "nf < length x_list"
    using Cons.prems(1) by (cases "length x_list \<le> nf") auto
  let ?s1 = "set_x f (x_list ! nf) s"
  have p: "populate_independent (Suc nf) fs x_list ?s1 = (None, s0)"
    using Cons.prems(1) lt F a by simp
  have "is_leaf ?s1 g = is_leaf s g" for g
    by (auto simp: is_leaf_def node_set_x split: option.splits)
  then have l: "list_all (is_leaf ?s1) fs"
    using Cons.prems(2) by (simp add: list_all_iff)
  have "node s0 f = node ?s1 f"
    using populate_independent_keeps [OF p l, of f] Cons.prems(3) by simp
  then have h: "map_option f_x (node s0 f) = Some (x_list ! nf)"
    using F by (simp add: node_set_x)
  have d: "drop nf x_list = x_list ! nf # drop (Suc nf) x_list"
    using lt by (simp add: Cons_nth_drop_Suc)
  show ?case
    using Cons.IH [OF p l] Cons.prems(3) h d by simp
qed

lemma traverse_leaf_x:
  assumes "node s r = Some R" and "f_args R = [r]" and "f_func R = Id" and "f_funcargs R = []"
  shows "map_option f_x (node (snd (traverse alg fs s)) r) = Some (f_x R)"
  using assms
proof (induction fs arbitrary: s R)
  case Nil
  then show ?case by simp
next
  case (Cons f fs)
  show ?case
  proof (cases "node s f")
    case None
    then show ?thesis using Cons.prems by simp
  next
    case (Some F)
    from replay_node_cases [OF Some, of alg] show ?thesis
    proof (elim disjE exE conjE)
      fix e
      assume "Function_push_forward alg (f_func F) (f_args F) (Some f) (f_funcargs F) s
                = (Inl e, s)"
      then show ?thesis using Some Cons.prems by simp
    next
      fix vs out
      assume g: "getattr_x_list s (f_args F) = Inr vs"
        and c: "call_func alg (f_func F) (vs @ f_funcargs F) = Inr out"
        and p: "Function_push_forward alg (f_func F) (f_args F) (Some f) (f_funcargs F) s
                  = (Inr f, set_x f out s)"
      have n: "node (set_x f out s) r = Some R"
      proof (cases "f = r")
        case False
        then show ?thesis using Cons.prems(1) by (simp add: node_set_x)
      next
        case True
        then have "F = R" using Some Cons.prems(1) by simp
        then have "vs = [f_x R]"
          using g Cons.prems True by simp
        then have "out = f_x R"
          using c \<open>F = R\<close> Cons.prems by (simp add: call_func_def)
        then show ?thesis using True Cons.prems(1) by (simp add: node_set_x)
      qed
      have "map_option f_x (node (snd (traverse alg fs (set_x f out s))) r) = Some (f_x R)"
        using Cons.IH [OF n Cons.prems(2-4)] .
      then show ?thesis using Some p by simp
    qed
  qed
qed

lemma wired_leaf:
  assumes "wired s pre fs" and "r \<in> set fs" and "node s r = Some R" and "f_args R = [r]"
  shows "f_func R = Id \<and> f_funcargs R = []"
  using assms
proof (induction fs arbitrary: pre)
  case Nil
  then show ?case by simp
next
  case (Cons f fs)
  show ?case
  proof (cases "r = f")
    case True
    then have "well_placed R r pre fs"
      using Cons.prems(1,3) by simp
    then show ?thesis
      using Cons.prems(4) by (auto simp: well_placed_def)
  next
    case False
    then show ?thesis
      using Cons.prems Cons.IH [of "pre @ [f]"] by simp
  qed
qed

lemma is_leaf_skeleton: "skeleton s' = skeleton s \<Longrightarrow> is_leaf s' r = is_leaf s r"
proof -
  assume "skeleton s' = skeleton s"
  then have "map_option wiring (node s' r) = map_option wiring (node s r)"
    by (simp add: skeleton_eq_iff)
  then show ?thesis
    by (cases "node s r"; cases "node s' r") (simp_all add: is_leaf_def wiring_def)
qed

lemma traverse_other:
  "r \<notin> set fs \<Longrightarrow> node (snd (traverse alg fs s)) r = node s r"
proof (induction fs arbitrary: s)
  case Nil
  show ?case by simp
next
  case (Cons f fs)
  show ?case
  proof (cases "node s f")
    case None
    then show ?thesis by simp
  next
    case (Some F)
    from replay_node_cases [OF Some, of alg] show ?thesis
    proof (elim disjE exE conjE)
      fix e
      assume "Function_push_forward alg (f_func F) (f_args F) (Some f) (f_funcargs F) s
                = (Inl e, s)"
      then show ?thesis using Some by simp
    next
      fix vs out
      assume p: "Function_push_forward alg (f_func F) (f_args F) (Some f) (f_funcargs F) s
                  = (Inr f, set_x f out s)"
      have "node (snd (traverse alg fs (set_x f out s))) r = node (set_x f out s) r"
        using Cons.IH [of "set_x f out s"] Cons.prems by simp
      then show ?thesis
        using Some p Cons.prems by (simp add: node_set_x)
    qed
  qed
qed

text \<open>
  When the independent nodes of the graph are leaves, each declared once, the
  first loop of \<open>CGraph.push_forward\<close> runs through if there is a value for each
  of them, and writes the values into the leaves.
\<close>

lemma populate_independent_returns:
  fixes s :: "('f, 'a) state"
  shows "list_all (is_leaf s) fs \<Longrightarrow> nf + length fs \<le> length x_list
     \<Longrightarrow> fst (populate_independent nf fs x_list s) = None"
proof (induction fs arbitrary: nf s)
  case Nil
  show ?case by simp
next
  case (Cons f fs)
  from Cons.prems(1) obtain F where F: "node s f = Some F" and a: "f_args F = [f]"
    by (auto simp: is_leaf_def split: option.splits)
  let ?s1 = "set_x f (x_list ! nf) s"
  have "is_leaf ?s1 g = is_leaf s g" for g
    by (auto simp: is_leaf_def node_set_x split: option.splits)
  then have l: "list_all (is_leaf ?s1) fs"
    using Cons.prems(1) by (simp add: list_all_iff)
  have "fst (populate_independent (Suc nf) fs x_list ?s1) = None"
    by (rule Cons.IH [OF l]) (use Cons.prems(2) in simp)
  then show ?case
    using Cons.prems(2) F a by simp
qed

text \<open>
  The replay never changes the value of a leaf: a leaf of the list is assigned
  its own value again, other nodes of the list are other objects.
\<close>

lemma traverse_keeps_leaf:
  assumes "wired s [] fl" and "node s r = Some R" and "f_args R = [r]"
  shows "map_option f_x (node (snd (traverse alg fl s)) r) = Some (f_x R)"
proof (cases "r \<in> set fl")
  case True
  then have "f_func R = Id \<and> f_funcargs R = []"
    using wired_leaf [OF assms(1) _ assms(2,3)] by simp
  then show ?thesis
    using traverse_leaf_x [OF assms(2,3)] by simp
next
  case False
  then show ?thesis
    using traverse_other [of r fl alg s] assms(2) by simp
qed

text \<open>
  C1. Let \<open>g\<close> be any graph of a tracing session, the one made last or an
  earlier one. When \<open>CGraph.push_forward\<close> returns on it, the value of every
  node of the graph is its operation applied to the values its arguments now
  have, followed by its auxiliary arguments. And when the independent nodes
  are leaves, each declared once, each holds the input value that was assigned
  to it.
\<close>

theorem push_forward_consistent:
  assumes "g \<in> set (graphs (run alg cs))"
    and "CGraph_push_forward alg x_list (as_self g (run alg cs)) = (None, s')"
  shows "list_all (consistent alg s') (functionList g)
       \<and> (distinct (independentFunctionList g)
            \<and> list_all (is_leaf s') (independentFunctionList g)
          \<longrightarrow> map (\<lambda>r. map_option f_x (node s' r)) (independentFunctionList g)
                = map Some (take (length (independentFunctionList g)) x_list))"
proof -
  let ?s = "as_self g (run alg cs)"
  let ?ind = "independentFunctionList g"
  let ?fl = "functionList g"
  have cg: "cgraph ?s = g"
    by (simp add: as_self_def)
  have ns: "node ?s r = node (run alg cs) r" for r
    by (simp add: as_self_def node_def)
  obtain e0 s0 where pop: "populate_independent 0 ?ind x_list ?s = (e0, s0)"
    by (cases "populate_independent 0 ?ind x_list ?s")
  have e0: "e0 = None"
    using assms(2) pop by (cases e0) (simp_all add: CGraph_push_forward_def cg)
  have sk0: "skeleton s0 = skeleton ?s"
    using skeleton_populate_independent [of 0 ?ind x_list ?s] pop by simp
  then have c0: "cgraph s0 = g"
    using cg by (simp add: skeleton_eq_iff)
  have tr: "traverse alg ?fl s0 = (None, s')"
    using assms(2) pop e0 c0 by (simp add: CGraph_push_forward_def cg)
  have sk': "skeleton s' = skeleton s0"
    using skeleton_traverse [of alg ?fl s0] tr by simp
  have "wired (run alg cs) [] ?fl"
    using inv_graphs [OF assms(1)] by (simp add: graph_inv_def)
  moreover have "wired s0 [] ?fl = wired (run alg cs) [] ?fl"
    by (rule wired_cong) (use sk0 ns in \<open>simp add: skeleton_eq_iff\<close>)
  ultimately have w0: "wired s0 [] ?fl"
    by simp
  have "\<forall>r\<in>set ([] @ ?fl). consistent alg s' r"
    by (rule traverse_consistent [OF w0]) (use tr in simp_all)
  then have first: "list_all (consistent alg s') ?fl"
    by (simp add: list_all_iff)
  have second: "map (\<lambda>r. map_option f_x (node s' r)) ?ind = map Some (take (length ?ind) x_list)"
    if d: "distinct ?ind" and l: "list_all (is_leaf s') ?ind"
  proof -
    have l0: "list_all (is_leaf s0) ?ind"
      using l is_leaf_skeleton [OF sk'] by (simp add: list_all_iff)
    have ls: "list_all (is_leaf ?s) ?ind"
      using l0 is_leaf_skeleton [OF sk0] by (simp add: list_all_iff)
    have v0: "map (\<lambda>r. map_option f_x (node s0 r)) ?ind = map Some (take (length ?ind) x_list)"
      using populate_independent_leaves [OF pop [unfolded e0] ls d] by simp
    have "map_option f_x (node s' r) = map_option f_x (node s0 r)" if r: "r \<in> set ?ind" for r
    proof -
      obtain R where R: "node s0 r = Some R" and a: "f_args R = [r]"
        using l0 r by (auto simp: list_all_iff is_leaf_def split: option.splits)
      have "map_option f_x (node (snd (traverse alg ?fl s0)) r) = Some (f_x R)"
        by (rule traverse_keeps_leaf [OF w0 R a])
      then show ?thesis using tr R by simp
    qed
    then have "map (\<lambda>r. map_option f_x (node s' r)) ?ind
             = map (\<lambda>r. map_option f_x (node s0 r)) ?ind"
      by simp
    then show ?thesis using v0 by simp
  qed
  show ?thesis
    using first second by simp
qed

text \<open>
  At \<open>ex_graph\<close>, the graph of the docstring, with the inputs 5, 6 and 7; and
  at \<open>ex_two_graphs\<close>, on the graph made first.
\<close>

theorem push_forward_consistent_witness:
  "fst (CGraph_push_forward ex_alg [PyObj 5, PyObj 6, PyObj 7] ex_graph) = None
   \<and> list_all (consistent ex_alg (snd (CGraph_push_forward ex_alg [PyObj 5, PyObj 6, PyObj 7] ex_graph)))
        [0, 1, 2, 3, 4]
   \<and> map (\<lambda>r. map_option f_x
                 (node (snd (CGraph_push_forward ex_alg [PyObj 5, PyObj 6, PyObj 7] ex_graph)) r))
        [0, 1, 2, 3, 4]
       = [Some (PyObj 5), Some (PyObj 6), Some (PyObj 7), Some (PyObj 13), Some (PyObj 65)]
   \<and> fst (CGraph_push_forward ex_alg [] (as_self (earlier ex_two_graphs ! 0) ex_two_graphs))
       = None
   \<and> list_all (consistent ex_alg
         (snd (CGraph_push_forward ex_alg [] (as_self (earlier ex_two_graphs ! 0) ex_two_graphs))))
        [0, 1]"
proof -
  let ?s = "run ex_alg ex_trace"
  let ?r = "CGraph_push_forward ex_alg [PyObj 5, PyObj 6, PyObj 7] (as_self (cgraph ?s) ?s)"
  let ?t = "run ex_alg [NewCGraph, NewFunction (PyObj 2), NewFunction (PyObj 3),
                        NewCGraph, Apply (Op mul) [0, 1] []]"
  let ?q = "CGraph_push_forward ex_alg [] (as_self (earlier ?t ! 0) ?t)"
  have same: "as_self (cgraph ?s) ?s = ?s"
    by (simp add: as_self_def)
  have g: "cgraph ?s \<in> set (graphs ?s)"
    by (simp add: graphs_def ex_trace_def session_defs)
  have f: "fst ?r = None"
    by (simp add: ex_trace_def session_defs CGraph_push_forward_def)
  then have e: "?r = (None, snd ?r)"
    by (simp add: prod_eq_iff)
  have fl: "functionList (cgraph ?s) = [0, 1, 2, 3, 4]"
    by (simp add: ex_trace_def session_defs)
  have v: "map (\<lambda>r. map_option f_x (node (snd ?r) r)) [0, 1, 2, 3, 4]
       = [Some (PyObj 5), Some (PyObj 6), Some (PyObj 7), Some (PyObj 13), Some (PyObj 65)]"
    by (simp add: ex_trace_def session_defs CGraph_push_forward_def)
  from push_forward_consistent [OF g e]
  have 1: "list_all (consistent ex_alg (snd ?r)) (functionList (cgraph ?s))"
    by blast
  have g2: "earlier ?t ! 0 \<in> set (graphs ?t)"
    by (simp add: graphs_def session_defs)
  have f2: "fst ?q = None"
    by (simp add: session_defs CGraph_push_forward_def)
  then have e2: "?q = (None, snd ?q)"
    by (simp add: prod_eq_iff)
  have fl2: "functionList (earlier ?t ! 0) = [0, 1]"
    by (simp add: session_defs)
  from push_forward_consistent [OF g2 e2]
  have 2: "list_all (consistent ex_alg (snd ?q)) (functionList (earlier ?t ! 0))"
    by blast
  show ?thesis
    using f v 1 f2 2 unfolding fl fl2 same ex_graph_def ex_two_graphs_def by simp
qed

subsection \<open>Leaves\<close>

lemma node_as_self [simp]: "node (as_self g s) r = node s r"
  by (simp add: as_self_def node_def)

lemma cgraph_as_self [simp]: "cgraph (as_self g s) = g"
  by (simp add: as_self_def)

lemma is_leaf_as_self [simp]: "is_leaf (as_self g s) = is_leaf s"
  by (rule ext) (simp add: is_leaf_def)

text \<open>
  A leaf that is entry \<open>nf\<close> of the independent list of the receiver holds
  \<open>x_list[nf]\<close> after \<open>CGraph.push_forward\<close>, whether the replay that follows
  the first loop returns or raises.
\<close>

lemma push_forward_installs:
  fixes s :: "('f, 'a) state"
  assumes F: "node s self = Some F"
    and w: "f_args F = [self]" "f_func F = Id" "f_funcargs F = []"
    and d: "distinct (independentFunctionList (cgraph s))"
    and l: "list_all (is_leaf s) (independentFunctionList (cgraph s))"
    and n: "length (independentFunctionList (cgraph s)) \<le> length x_list"
    and i: "nf < length (independentFunctionList (cgraph s))"
           "independentFunctionList (cgraph s) ! nf = self"
  shows "map_option f_x (node (snd (CGraph_push_forward alg x_list s)) self)
           = Some (x_list ! nf)"
proof -
  let ?ind = "independentFunctionList (cgraph s)"
  obtain e0 s0 where pop: "populate_independent 0 ?ind x_list s = (e0, s0)"
    by (cases "populate_independent 0 ?ind x_list s")
  have "fst (populate_independent 0 ?ind x_list s) = None"
    by (rule populate_independent_returns [OF l]) (use n in simp)
  then have e0: "e0 = None"
    using pop by simp
  have v: "map (\<lambda>r. map_option f_x (node s0 r)) ?ind = map Some (take (length ?ind) x_list)"
    using populate_independent_leaves [OF pop [unfolded e0] l d] by simp
  have "map (\<lambda>r. map_option f_x (node s0 r)) ?ind ! nf = map Some (take (length ?ind) x_list) ! nf"
    using v by simp
  then have x0: "map_option f_x (node s0 self) = Some (x_list ! nf)"
    using i n by simp
  have sk: "skeleton s0 = skeleton s"
    using skeleton_populate_independent [of 0 ?ind x_list s] pop by simp
  then have "map_option wiring (node s0 self) = Some (wiring F)"
    using F by (simp add: skeleton_eq_iff)
  then obtain R where R: "node s0 self = Some R" and wR: "wiring R = wiring F"
    by auto
  have a: "f_args R = [self]" "f_func R = Id" "f_funcargs R = []"
    using wR w by (simp_all add: wiring_def)
  have "map_option f_x (node (snd (traverse alg (functionList (cgraph s0)) s0)) self)
          = Some (f_x R)"
    by (rule traverse_leaf_x [OF R a])
  moreover have "f_x R = x_list ! nf"
    using x0 R by simp
  ultimately show ?thesis
    using pop e0 by (simp add: CGraph_push_forward_def)
qed

text \<open>
  C9. With a graph bound to \<open>Function.cgraph\<close>, \<open>Function(x)\<close> for \<open>x\<close> not
  \<open>None\<close> returns a new object \<open>self\<close> that holds \<open>x\<close> and is the last node of
  the list. Whatever the session does afterwards (the commands \<open>cs\<close>, which may
  make further graphs), this node has itself as its only argument and \<open>Id\<close> as
  its operation. So the first loop of \<open>CGraph.push_forward\<close>, when it meets
  the node in the independent list, writes the input value through
  \<open>f.args[0].x\<close> into the node's own \<open>x\<close>. And \<open>CGraph.push_forward(x_list)\<close>
  on any receiver \<open>g\<close> whose independent nodes are leaves, each declared once
  and each with a value in \<open>x_list\<close>, leaves \<open>x_list[nf]\<close> in the \<open>x\<close> of the
  node when the node is entry \<open>nf\<close> of the independent list, whether the
  replay that follows returns or raises.
\<close>

theorem leaf_is_self_referential:
  assumes "x \<noteq> PyNone" and "bound s"
    and "self = length (heap s)"
    and "t = foldl (exec alg) (snd (Function_init x s)) cs"
  shows "fst (Function_init x s) = Inr self
     \<and> map_option f_x (node (snd (Function_init x s)) self) = Some x
     \<and> functionList (cgraph (snd (Function_init x s))) = functionList (cgraph s) @ [self]
     \<and> (\<exists>F. node t self = Some F \<and> f_args F = [self] \<and> f_func F = Id
            \<and> (\<forall>nf x_list fs. nf < length x_list \<longrightarrow>
                  populate_independent nf (self # fs) x_list t
                    = populate_independent (Suc nf) fs x_list (set_x self (x_list ! nf) t)
                  \<and> node (set_x self (x_list ! nf) t) self = Some (F\<lparr>f_x := x_list ! nf\<rparr>)))
     \<and> (\<forall>g x_list nf.
            distinct (independentFunctionList g)
            \<and> list_all (is_leaf t) (independentFunctionList g)
            \<and> length (independentFunctionList g) \<le> length x_list
            \<and> nf < length (independentFunctionList g)
            \<and> independentFunctionList g ! nf = self
          \<longrightarrow> map_option f_x (node (snd (CGraph_push_forward alg x_list (as_self g t))) self)
                = Some (x_list ! nf))"
proof -
  let ?s' = "snd (Function_init x s)"
  let ?L = "\<lparr>f_x = x, f_args = [self], f_func = Id, f_ID = get_ID s,
             f_funcargs = [], f_xbar = NotSet\<rparr> :: ('b, 'a) Function"
  have n: "node ?s' self = Some ?L"
    using assms(1,2,3) by (simp add: Function_init_eq node_append)
  obtain F where F: "node t self = Some F" and w: "wiring F = wiring ?L"
    using foldl_exec_node_wiring [OF n, of alg cs] assms(4) by auto
  have a: "f_args F = [self]" "f_func F = Id" "f_funcargs F = []"
    using w by (simp_all add: wiring_def)
  have p: "populate_independent nf (self # fs) x_list t
             = populate_independent (Suc nf) fs x_list (set_x self (x_list ! nf) t)"
    if "nf < length x_list" for nf x_list fs
    using that F a by simp
  have q: "node (set_x self v t) self = Some (F\<lparr>f_x := v\<rparr>)" for v
    using F by (simp add: node_set_x)
  have r: "map_option f_x (node (snd (CGraph_push_forward alg x_list (as_self g t))) self)
             = Some (x_list ! nf)"
    if "distinct (independentFunctionList g)"
      and "list_all (is_leaf t) (independentFunctionList g)"
      and "length (independentFunctionList g) \<le> length x_list"
      and "nf < length (independentFunctionList g)"
      and "independentFunctionList g ! nf = self"
    for g x_list nf
    by (rule push_forward_installs [where F = F]) (use that F a in simp_all)
  have 1: "fst (Function_init x s) = Inr self"
    using assms(1,2,3) by (simp add: Function_init_eq)
  have 2: "map_option f_x (node ?s' self) = Some x"
    using n by simp
  have 3: "functionList (cgraph ?s') = functionList (cgraph s) @ [self]"
    using assms(1,2,3) by (simp add: Function_init_eq)
  have 4: "\<exists>F. node t self = Some F \<and> f_args F = [self] \<and> f_func F = Id
            \<and> (\<forall>nf x_list fs. nf < length x_list \<longrightarrow>
                  populate_independent nf (self # fs) x_list t
                    = populate_independent (Suc nf) fs x_list (set_x self (x_list ! nf) t)
                  \<and> node (set_x self (x_list ! nf) t) self = Some (F\<lparr>f_x := x_list ! nf\<rparr>))"
    using F a p q by blast
  show ?thesis
    using 1 2 3 4 r by blast
qed

text \<open>
  In a new graph, \<open>x = Function(2)\<close>, then \<open>y = Function(3)\<close>, \<open>z = x * y\<close>
  and \<open>cg.independentFunctionList = [x, y]\<close>; \<open>cg.push_forward([5, 6])\<close> leaves
  5 in \<open>x\<close>, and 6 and 30 in \<open>y\<close> and \<open>z\<close>.
\<close>

theorem leaf_is_self_referential_witness:
  "fst (Function_init (PyObj 2) (CGraph_init start :: (opname, int) state)) = Inr 0
   \<and> map_option f_x
        (node (snd (CGraph_push_forward ex_alg [PyObj 5, PyObj 6]
           (foldl (exec ex_alg) (snd (Function_init (PyObj 2) (CGraph_init start)))
              [NewFunction (PyObj 3), Apply (Op mul) [0, 1] [],
               Call 0 (SetIndependent [0, 1])]))) 0)
      = Some (PyObj 5)
   \<and> map (\<lambda>r. map_option f_x
        (node (snd (CGraph_push_forward ex_alg [PyObj 5, PyObj 6]
           (foldl (exec ex_alg) (snd (Function_init (PyObj 2) (CGraph_init start)))
              [NewFunction (PyObj 3), Apply (Op mul) [0, 1] [],
               Call 0 (SetIndependent [0, 1])]))) r)) [0, 1, 2]
      = [Some (PyObj 5), Some (PyObj 6), Some (PyObj 30)]"
proof -
  let ?s = "CGraph_init start :: (opname, int) state"
  let ?t = "foldl (exec ex_alg) (snd (Function_init (PyObj 2) ?s))
              [NewFunction (PyObj 3), Apply (Op mul) [0, 1] [], Call 0 (SetIndependent [0, 1])]"
  have h: "PyObj 2 \<noteq> (PyNone :: int pyval)" by simp
  have b: "bound ?s"
    by (simp add: session_defs)
  have l: "0 = length (heap ?s)"
    by (simp add: session_defs)
  have same: "as_self (cgraph ?t) ?t = ?t"
    by (simp add: as_self_def)
  have ind: "independentFunctionList (cgraph ?t) = [0, 1]"
    by (simp add: session_defs)
  have lv: "list_all (is_leaf ?t) [0, 1]"
    by (simp add: is_leaf_def session_defs)
  have v: "map (\<lambda>r. map_option f_x
              (node (snd (CGraph_push_forward ex_alg [PyObj 5, PyObj 6] ?t)) r)) [0, 1, 2]
         = [Some (PyObj 5), Some (PyObj 6), Some (PyObj 30)]"
    by (simp add: session_defs CGraph_push_forward_def)
  from leaf_is_self_referential [OF h b l refl, of ex_alg
         "[NewFunction (PyObj 3), Apply (Op mul) [0, 1] [], Call 0 (SetIndependent [0, 1])]"]
  have 1: "fst (Function_init (PyObj 2) ?s) = Inr 0"
    and 2: "\<forall>g x_list nf.
            distinct (independentFunctionList g)
            \<and> list_all (is_leaf ?t) (independentFunctionList g)
            \<and> length (independentFunctionList g) \<le> length x_list
            \<and> nf < length (independentFunctionList g)
            \<and> independentFunctionList g ! nf = 0
          \<longrightarrow> map_option f_x (node (snd (CGraph_push_forward ex_alg x_list (as_self g ?t))) 0)
                = Some (x_list ! nf)"
    by blast+
  from 2 [rule_format, of "cgraph ?t" "[PyObj 5, PyObj 6]" 0]
  have 3: "map_option f_x (node (snd (CGraph_push_forward ex_alg [PyObj 5, PyObj 6] ?t)) 0)
            = Some (PyObj 5)"
    unfolding same ind using lv by simp
  show ?thesis
    using 1 3 v by simp
qed

subsection \<open>Seeding the adjoints\<close>

lemma getattr_xbar_set_xbar:
  "getattr_xbar (set_xbar f v s) r
     = (if r = f \<and> node s f \<noteq> None then Inr v else getattr_xbar s r)"
  by (auto simp: getattr_xbar_def set_xbar_def node_def split: option.splits)

lemma py_setitem_Inr:
  "py_setitem alg xb v = Inr xb' \<Longrightarrow> \<exists>a a'. xb = PyObj a \<and> setitem alg a v = Inr a' \<and> xb' = PyObj a'"
  by (auto simp: py_setitem_def split: pyval.splits sum.splits)

lemma seed_xbar_Cons_cases:
  "(\<exists>e. seed_xbar alg nf (f # fs) xbar_list s = (Some e, s))
   \<or> (\<exists>a a'. nf < length xbar_list \<and> getattr_xbar s f = Inr (PyObj a)
        \<and> seed_xbar alg nf (f # fs) xbar_list s
            = seed_xbar alg (Suc nf) fs xbar_list (set_xbar f (PyObj a') s))"
proof (cases "length xbar_list \<le> nf")
  case True
  then show ?thesis by simp
next
  case False
  show ?thesis
  proof (cases "getattr_xbar s f")
    case (Inl e)
    then show ?thesis using False by simp
  next
    case (Inr xb)
    show ?thesis
    proof (cases "py_setitem alg xb (xbar_list ! nf)")
      case (Inl e)
      then show ?thesis using False Inr by simp
    next
      case r: (Inr xb')
      from py_setitem_Inr [OF r] obtain a a' where "xb = PyObj a" "xb' = PyObj a'"
        by blast
      then show ?thesis using False Inr r by auto
    qed
  qed
qed

lemma seed_xbar_fails:
  assumes "r \<in> set fs" and "getattr_xbar s r = Inr v" and "\<forall>a. v \<noteq> PyObj a"
  shows "fst (seed_xbar alg nf fs xbar_list s) \<noteq> None"
  using assms
proof (induction fs arbitrary: nf s)
  case Nil
  then show ?case by simp
next
  case (Cons f fs)
  from seed_xbar_Cons_cases [of alg nf f fs xbar_list s] show ?case
  proof (elim disjE exE conjE)
    fix e assume "seed_xbar alg nf (f # fs) xbar_list s = (Some e, s)"
    then show ?thesis by simp
  next
    fix a a'
    assume g: "getattr_xbar s f = Inr (PyObj a)"
      and e: "seed_xbar alg nf (f # fs) xbar_list s
                = seed_xbar alg (Suc nf) fs xbar_list (set_xbar f (PyObj a') s)"
    have "r \<noteq> f" using g Cons.prems(2,3) by auto
    then have "r \<in> set fs" and "getattr_xbar (set_xbar f (PyObj a') s) r = Inr v"
      using Cons.prems(1,2) by (simp_all add: getattr_xbar_set_xbar)
    then show ?thesis
      using Cons.IH [of "set_xbar f (PyObj a') s" "Suc nf"] Cons.prems(3) e by simp
  qed
qed

lemma seed_xbar_keeps:
  assumes "seed_xbar alg nf fs xbar_list s = (e, s')"
    and "getattr_xbar s r = Inr v" and "\<forall>a. v \<noteq> PyObj a"
  shows "getattr_xbar s' r = Inr v"
  using assms
proof (induction fs arbitrary: nf s)
  case Nil
  then show ?case by simp
next
  case (Cons f fs)
  from seed_xbar_Cons_cases [of alg nf f fs xbar_list s] show ?case
  proof (elim disjE exE conjE)
    fix e' assume "seed_xbar alg nf (f # fs) xbar_list s = (Some e', s)"
    then show ?thesis using Cons.prems(1,2) by simp
  next
    fix a a'
    assume g: "getattr_xbar s f = Inr (PyObj a)"
      and eq: "seed_xbar alg nf (f # fs) xbar_list s
                = seed_xbar alg (Suc nf) fs xbar_list (set_xbar f (PyObj a') s)"
    have "r \<noteq> f" using g Cons.prems(2,3) by auto
    then have "getattr_xbar (set_xbar f (PyObj a') s) r = Inr v"
      using Cons.prems(2) by (simp add: getattr_xbar_set_xbar)
    moreover have "seed_xbar alg (Suc nf) fs xbar_list (set_xbar f (PyObj a') s) = (e, s')"
      using Cons.prems(1) eq by simp
    ultimately show ?thesis
      using Cons.IH [of "Suc nf" "set_xbar f (PyObj a') s"] Cons.prems(3) by simp
  qed
qed

lemma seed_xbar_append:
  "seed_xbar alg nf (fs @ gs) xbar_list s
     = (case seed_xbar alg nf fs xbar_list s of
          (None, s1) \<Rightarrow> seed_xbar alg (nf + length fs) gs xbar_list s1
        | (Some e, s1) \<Rightarrow> (Some e, s1))"
proof (induction fs arbitrary: nf s)
  case Nil
  show ?case by simp
next
  case (Cons f fs)
  show ?case
    by (simp add: Cons.IH split: sum.splits prod.splits option.splits)
qed

lemma seed_xbar_TypeError:
  assumes "seed_xbar alg nf pre xbar_list s = (None, s2)"
    and "nf + length pre < length xbar_list"
    and "getattr_xbar s d = Inr v" and "\<forall>a. v \<noteq> PyObj a"
  shows "seed_xbar alg nf (pre @ d # post) xbar_list s = (Some TypeError, s2)"
proof -
  have "getattr_xbar s2 d = Inr v"
    using seed_xbar_keeps [OF assms(1,3,4)] .
  then have "seed_xbar alg (nf + length pre) (d # post) xbar_list s2 = (Some TypeError, s2)"
    using assms(2,4) by (cases v) (simp_all add: py_setitem_def)
  then show ?thesis
    using assms(1) by (simp add: seed_xbar_append)
qed

lemma getattr_xbar_node: "node s r = Some F \<Longrightarrow> getattr_xbar s r = Inr (f_xbar F)"
  by (auto simp: getattr_xbar_def node_def split: if_splits)

lemma init_xbar_not_assignable:
  assumes "init_xbar alg fl s = (None, s1)" and "d \<in> set fl" and "node s d = Some F"
    and "numpy_isscalar (f_x F) \<or> (\<exists>xs. f_x F = PyTuple xs)"
  shows "\<exists>zs. getattr_xbar s1 d = Inr (if numpy_isscalar (f_x F) then PyFloat 0 else PyTuple zs)"
proof -
  have "map_option f_x (node s1 d) = Some (f_x F)"
    using init_xbar_x [OF assms(1), of d] assms(3) by simp
  then obtain F1 where F1: "node s1 d = Some F1" and x: "f_x F1 = f_x F"
    by auto
  have z: "zero_shaped alg (f_x F) (f_xbar F1)"
    using init_xbar_zero [OF assms(1,2)] F1 x by (simp add: zero_adjoint_def)
  have "\<exists>zs. f_xbar F1 = (if numpy_isscalar (f_x F) then PyFloat 0 else PyTuple zs)"
  proof (cases "numpy_isscalar (f_x F)")
    case True
    then show ?thesis
      using z by (cases "f_x F") (simp_all add: numpy_isscalar_def)
  next
    case False
    obtain xs where xs: "f_x F = PyTuple xs" using False assms(4) by auto
    have "\<exists>zs. f_xbar F1 = PyTuple zs"
      using z xs by (cases "f_xbar F1") simp_all
    then show ?thesis using False by simp
  qed
  then show ?thesis
    using getattr_xbar_node [OF F1] by simp
qed

text \<open>
  C10, as it is worded, fails in two ways. A dependent node that holds a tuple
  of two floats makes \<open>CGraph.pullback\<close> raise AttributeError during the zero
  initialisation, before the seeding: a float has no \<open>zeros_like\<close>. And for a
  dependent node that holds a float, a call without a seed raises IndexError:
  Python evaluates \<open>xbar_list[nf]\<close> before the assignment.
\<close>

theorem pullback_seeding_counterexample:
  "map_option f_x (node ex_tuple_graph 0) = Some (PyTuple [PyFloat 1, PyFloat 2])
   \<and> dependentFunctionList (cgraph ex_tuple_graph) = [0]
   \<and> CGraph_pullback ex_alg [PyObj 1] ex_tuple_graph = (Some AttributeError, ex_tuple_graph)
   \<and> map_option f_x (node ex_scalar_graph 0) = Some (PyFloat 3)
   \<and> dependentFunctionList (cgraph ex_scalar_graph) = [0]
   \<and> fst (CGraph_pullback ex_alg [] ex_scalar_graph) = Some IndexError"
  by (simp add: ex_tuple_graph_def ex_scalar_graph_def session_defs CGraph_pullback_def
        xbar_from_x_def numpy_isscalar_def py_zeros_like_def getattr_xbar_def)

text \<open>
  C10, amended. When a dependent node that is recorded in the graph holds a
  Python scalar or a tuple, \<open>CGraph.pullback\<close> never returns normally. When the
  zero initialisation runs through, the adjoint of that node is the float zero,
  respectively a tuple; and when the seeding reaches the node (the nodes before
  it in the dependent list were seeded) and a seed is supplied for it, the
  assignment \<open>f.xbar[...] = xbar_list[nf]\<close> raises TypeError, in the state the
  seeding had reached: nothing is propagated. Item assignment succeeds only on
  an object of the algebra.
\<close>

theorem pullback_cannot_seed_scalar_or_tuple:
  assumes "dependentFunctionList (cgraph s) = pre @ d # post"
    and "d \<in> set (functionList (cgraph s))"
    and "node s d = Some F"
    and "numpy_isscalar (f_x F) \<or> (\<exists>xs. f_x F = PyTuple xs)"
  shows "fst (CGraph_pullback alg xbar_list s) \<noteq> None
     \<and> (\<forall>s1 s2. init_xbar alg (functionList (cgraph s)) s = (None, s1)
            \<and> seed_xbar alg 0 pre xbar_list s1 = (None, s2)
            \<and> length pre < length xbar_list
          \<longrightarrow> (\<exists>zs. getattr_xbar s2 d
                       = Inr (if numpy_isscalar (f_x F) then PyFloat 0 else PyTuple zs))
              \<and> CGraph_pullback alg xbar_list s = (Some TypeError, s2))
     \<and> (\<forall>xb v xb'. py_setitem alg xb v = Inr xb' \<longrightarrow> (\<exists>a. xb = PyObj a))"
proof -
  let ?fl = "functionList (cgraph s)"
  have ne: "dependentFunctionList (cgraph s) \<noteq> []"
    using assms(1) by simp
  have after_init: "\<exists>zs. getattr_xbar s1 d
                        = Inr (if numpy_isscalar (f_x F) then PyFloat 0 else PyTuple zs)"
    and graph_same: "cgraph s1 = cgraph s"
    if i: "init_xbar alg ?fl s = (None, s1)" for s1
  proof -
    show "\<exists>zs. getattr_xbar s1 d
             = Inr (if numpy_isscalar (f_x F) then PyFloat 0 else PyTuple zs)"
      using init_xbar_not_assignable [OF i assms(2,3,4)] .
    have "skeleton s1 = skeleton s"
      using skeleton_init_xbar [of alg ?fl s] i by simp
    then show "cgraph s1 = cgraph s" by (simp add: skeleton_eq_iff)
  qed
  have fails: "fst (CGraph_pullback alg xbar_list s) \<noteq> None"
  proof -
    obtain e1 s1 where i: "init_xbar alg ?fl s = (e1, s1)"
      by (cases "init_xbar alg ?fl s")
    show ?thesis
    proof (cases e1)
      case (Some e)
      then show ?thesis using i ne by (simp add: CGraph_pullback_def)
    next
      case None
      obtain zs where g: "getattr_xbar s1 d
                            = Inr (if numpy_isscalar (f_x F) then PyFloat 0 else PyTuple zs)"
        using after_init i None by blast
      have "fst (seed_xbar alg 0 (pre @ d # post) xbar_list s1) \<noteq> None"
        by (rule seed_xbar_fails [OF _ g]) simp_all
      then show ?thesis
        using i None ne assms(1) graph_same [of s1]
        by (auto simp: CGraph_pullback_def split: prod.splits option.splits)
    qed
  qed
  have precise: "(\<exists>zs. getattr_xbar s2 d
                       = Inr (if numpy_isscalar (f_x F) then PyFloat 0 else PyTuple zs))
              \<and> CGraph_pullback alg xbar_list s = (Some TypeError, s2)"
    if i: "init_xbar alg ?fl s = (None, s1)"
      and sd: "seed_xbar alg 0 pre xbar_list s1 = (None, s2)"
      and len: "length pre < length xbar_list" for s1 s2
  proof -
    obtain zs where g: "getattr_xbar s1 d
                          = Inr (if numpy_isscalar (f_x F) then PyFloat 0 else PyTuple zs)"
      using after_init [OF i] by blast
    have n: "\<forall>a. (if numpy_isscalar (f_x F) then PyFloat 0 else PyTuple zs) \<noteq> PyObj a"
      by simp
    have g2: "getattr_xbar s2 d
                = Inr (if numpy_isscalar (f_x F) then PyFloat 0 else PyTuple zs)"
      using seed_xbar_keeps [OF sd g n] .
    have "seed_xbar alg 0 (pre @ d # post) xbar_list s1 = (Some TypeError, s2)"
      by (rule seed_xbar_TypeError [OF sd _ g n]) (use len in simp)
    then have "CGraph_pullback alg xbar_list s = (Some TypeError, s2)"
      using i ne assms(1) graph_same [OF i] by (simp add: CGraph_pullback_def)
    then show ?thesis using g2 by blast
  qed
  have only_obj: "\<exists>a. xb = PyObj a" if "py_setitem alg xb v = Inr xb'" for xb v xb'
    using py_setitem_Inr [OF that] by blast
  show ?thesis
    using fails precise only_obj by blast
qed

theorem pullback_cannot_seed_scalar_or_tuple_witness:
  "CGraph_pullback ex_alg [PyObj 1] ex_scalar_graph
     = (Some TypeError, set_xbar 0 (PyFloat 0) ex_scalar_graph)
   \<and> getattr_xbar (set_xbar 0 (PyFloat 0) ex_scalar_graph) 0 = Inr (PyFloat 0)"
proof -
  let ?s1 = "set_xbar 0 (PyFloat 0) ex_scalar_graph"
  let ?F = "\<lparr>f_x = PyFloat 3, f_args = [0], f_func = Id, f_ID = Some 0, f_funcargs = [],
             f_xbar = NotSet\<rparr> :: (opname, int) Function"
  have 1: "dependentFunctionList (cgraph ex_scalar_graph) = [] @ 0 # []"
    by (simp add: ex_scalar_graph_def session_defs)
  have 2: "0 \<in> set (functionList (cgraph ex_scalar_graph))"
    by (simp add: ex_scalar_graph_def session_defs)
  have 3: "node ex_scalar_graph 0 = Some ?F"
    by (simp add: ex_scalar_graph_def session_defs)
  have 4: "numpy_isscalar (f_x ?F) \<or> (\<exists>xs. f_x ?F = PyTuple xs)"
    by (simp add: numpy_isscalar_def)
  have i: "init_xbar ex_alg (functionList (cgraph ex_scalar_graph)) ex_scalar_graph = (None, ?s1)"
    by (simp add: ex_scalar_graph_def session_defs xbar_from_x_def numpy_isscalar_def)
  have sd: "seed_xbar ex_alg 0 [] [PyObj 1] ?s1 = (None, ?s1)"
    by simp
  have len: "length ([] :: ref list) < length [PyObj 1 :: int pyval]"
    by simp
  from pullback_cannot_seed_scalar_or_tuple [OF 1 2 3 4, of ex_alg "[PyObj 1]"]
  have "init_xbar ex_alg (functionList (cgraph ex_scalar_graph)) ex_scalar_graph = (None, ?s1)
          \<and> seed_xbar ex_alg 0 [] [PyObj 1] ?s1 = (None, ?s1)
          \<and> length ([] :: ref list) < length [PyObj 1 :: int pyval]
        \<longrightarrow> (\<exists>zs. getattr_xbar ?s1 0
                     = Inr (if numpy_isscalar (f_x ?F) then PyFloat 0 else PyTuple zs))
            \<and> CGraph_pullback ex_alg [PyObj 1] ex_scalar_graph = (Some TypeError, ?s1)"
    by blast
  with i sd len have "(\<exists>zs. getattr_xbar ?s1 0
                     = Inr (if numpy_isscalar (f_x ?F) then PyFloat 0 else PyTuple zs))
            \<and> CGraph_pullback ex_alg [PyObj 1] ex_scalar_graph = (Some TypeError, ?s1)"
    by blast
  then show ?thesis
    by (simp add: numpy_isscalar_def)
qed

subsection \<open>Reverse replay\<close>

text \<open>
  The adjoints of the arguments are updated in place, one argument after the
  other. For \<open>y = x * x\<close> at \<open>x = 3\<close> both products are accumulated in the one
  adjoint of \<open>x\<close>: the gradient is 6.
\<close>

lemma pullback_square:
  "map (\<lambda>r. map_option f_xbar (node (snd (CGraph_pullback ex_alg [PyObj 1] ex_square)) r)) [0, 1]
     = [Some (PyObj 6), Some (PyObj 1)]"
  by (simp add: ex_square_def session_defs CGraph_pullback_def xbar_from_x_def
        Function_pullback_def numpy_isscalar_def py_zeros_like_def py_setitem_def py_list_def
        getattr_xbar_def)

end
